theory Spec2Isabelle
  imports Complex_Main "HOL-Library.Product_Lexorder" "HOL-Library.Multiset"
begin

unbundle bit_operations_syntax

section \<open>Data model\<close>

text \<open>
  \<^verbatim>\<open>time_type\<close> is a floating-point number in the source. It is modelled by \<^typ>\<open>real\<close>:
  the driver only compares times, takes the minimum of two of them and adds the epoch
  interval to one, and the model reads these operations exactly (no rounding, no NaN).
\<close>

type_synonym time_type = real

type_synonym cell_gid_type = nat

type_synonym cell_size_type = nat

text \<open>
  Modelled from the spec: the declaration of the post-synaptic event (\<^verbatim>\<open>spike_event\<close>,
  stored in a \<^verbatim>\<open>pse_vector\<close>) is not part of the sources at hand. "Post-synaptic event
  (PSE): \<^verbatim>\<open>{target: local cell index, weight, time}\<close>."
\<close>

record pse =
  target :: nat
  weight :: real
  time :: time_type

text \<open>
  Modelled from the spec: "Ordering key is time (ties broken by target then weight to make
  sort stable and deterministic)". This is \<^verbatim>\<open>operator<\<close> of the event type, which
  \<^verbatim>\<open>util::sort\<close> and \<^verbatim>\<open>std::merge\<close> use when no comparison is passed.
\<close>

definition pse_key :: "pse \<Rightarrow> time_type \<times> nat \<times> real" where
  "pse_key e = (time e, target e, weight e)"

definition pse_less :: "pse \<Rightarrow> pse \<Rightarrow> bool" where
  "pse_less a b \<longleftrightarrow> pse_key a < pse_key b"

text \<open>
  Modelled from the spec: \<^verbatim>\<open>event_time_less\<close>, the comparison handed to
  \<^verbatim>\<open>split_sorted_range\<close>, is declared outside the sources at hand. The merger drops "the
  prefix of \<^verbatim>\<open>old_events\<close> with \<^verbatim>\<open>time < t_from\<close>" and splits at \<^verbatim>\<open>t_to\<close>: the
  comparison is between the time of an event and a time.
\<close>

definition event_time_less :: "pse \<Rightarrow> time_type \<Rightarrow> bool" where
  "event_time_less e t \<longleftrightarrow> time e < t"

text \<open>A span or vector of events is time-sorted when its times never decrease.\<close>

definition time_sorted :: "pse list \<Rightarrow> bool" where
  "time_sorted xs \<longleftrightarrow> sorted (map time xs)"

section \<open>The event merger\<close>

text \<open>
  \<^verbatim>\<open>split_sorted_range(seq, v, cmp)\<close> cuts \<^verbatim>\<open>seq\<close> at
  \<^verbatim>\<open>std::lower_bound(begin, end, v, cmp)\<close>: the first position whose element does not
  satisfy \<^verbatim>\<open>cmp(element, v)\<close>. \<^verbatim>\<open>std::lower_bound\<close> requires the range to be
  partitioned by that test, which a time-sorted range is; on such a range the position is
  the end of the longest prefix satisfying the test.
\<close>

definition split_sorted_range :: "pse list \<Rightarrow> time_type \<Rightarrow> pse list \<times> pse list" where
  "split_sorted_range seq v =
     (takeWhile (\<lambda>e. event_time_less e v) seq, dropWhile (\<lambda>e. event_time_less e v) seq)"

text \<open>
  \<^verbatim>\<open>std::merge(first1, last1, first2, last2, out)\<close> with \<^verbatim>\<open>operator<\<close>: the head of
  the second range is taken only when it is strictly less than the head of the first.
\<close>

fun std_merge :: "pse list \<Rightarrow> pse list \<Rightarrow> pse list" where
  "std_merge [] ys = ys"
| "std_merge xs [] = xs"
| "std_merge (x # xs) (y # ys) =
     (if pse_less y x then y # std_merge (x # xs) ys else x # std_merge xs (y # ys))"

text \<open>
  Modelled from the spec: \<^verbatim>\<open>tree_merge_events(spanbuf, out)\<close> lives in
  \<^verbatim>\<open>merge_events.hpp\<close>, which is not part of the sources at hand. The spec describes it
  as "a K-way tree-merge into out" of time-sorted spans with the tie-break rule "equal-time
  events preserve the relative order (old before pending before generator-i in ascending
  i)", which is the order of the spans in the buffer. A K-way merge by time in which the
  earlier span wins a tie is the right-nested stable two-way merge of the spans.
\<close>

fun merge_by_time :: "pse list \<Rightarrow> pse list \<Rightarrow> pse list" where
  "merge_by_time [] ys = ys"
| "merge_by_time xs [] = xs"
| "merge_by_time (x # xs) (y # ys) =
     (if time y < time x then y # merge_by_time (x # xs) ys
      else x # merge_by_time xs (y # ys))"

definition tree_merge_events :: "pse list list \<Rightarrow> pse list \<Rightarrow> pse list" where
  "tree_merge_events sources out = out @ foldr merge_by_time sources []"

text \<open>
  The loop over the generators of \<^verbatim>\<open>merge_cell_events\<close>. An event generator is opaque
  here; \<^verbatim>\<open>g.events(t_from, t_to)\<close> is the parameter \<open>ev\<close>, which returns the span
  of events and the generator after the call (a generator carries its own clock). A span
  that is empty is not pushed to the buffer.
\<close>

fun generator_spans ::
  "(time_type \<Rightarrow> time_type \<Rightarrow> 'gen \<Rightarrow> pse list \<times> 'gen) \<Rightarrow> time_type \<Rightarrow> time_type \<Rightarrow>
   'gen list \<Rightarrow> pse list list \<times> 'gen list" where
  "generator_spans ev t_from t_to [] = ([], [])"
| "generator_spans ev t_from t_to (g # gs) =
     (let (evs, g') = ev t_from t_to g;
          (spans, gs') = generator_spans ev t_from t_to gs
      in ((if evs \<noteq> [] then [evs] else []) @ spans, g' # gs'))"

text \<open>
  \<^verbatim>\<open>merge_cell_events(t_from, t_to, old_events, pending, generators, new_events)\<close>.
  The two reference parameters are returned: the generators after their \<^verbatim>\<open>events\<close>
  calls and the contents of \<^verbatim>\<open>new_events\<close>. The argument \<open>new_events\<close> is the
  vector's contents before the call.
\<close>

definition merge_cell_events ::
  "(time_type \<Rightarrow> time_type \<Rightarrow> 'gen \<Rightarrow> pse list \<times> 'gen) \<Rightarrow> time_type \<Rightarrow> time_type \<Rightarrow>
   pse list \<Rightarrow> pse list \<Rightarrow> 'gen list \<Rightarrow> pse list \<Rightarrow> 'gen list \<times> pse list" where
  "merge_cell_events ev t_from t_to old_events pending generators new_events =
     (let new_events = [];
          old_events = snd (split_sorted_range old_events t_from)
      in if generators \<noteq> [] then
           (let old_split = split_sorted_range old_events t_to;
                pending_split = split_sorted_range pending t_to;
                (gspans, generators') = generator_spans ev t_from t_to generators;
                spanbuf = [fst old_split, fst pending_split] @ gspans;
                new_events = tree_merge_events spanbuf new_events;
                old_events = snd old_split;
                pending = snd pending_split
            in (generators', new_events @ std_merge pending old_events))
         else (generators, new_events @ std_merge pending old_events))"

section \<open>The simulation state\<close>

text \<open>
  Modelled from the spec: the epoch type is declared in a header that is not part of the
  sources at hand. "Epoch: a record \<^verbatim>\<open>{id: integer \<ge> 0, t0, t1}\<close>. An epoch is empty iff
  \<^verbatim>\<open>t0 == t1\<close>. \<^verbatim>\<open>advance_to(t)\<close> sets \<^verbatim>\<open>t0 \<leftarrow> t1\<close>, \<^verbatim>\<open>t1 \<leftarrow> t\<close>,
  \<^verbatim>\<open>id \<leftarrow> id+1\<close>. Reset sets all fields to zero." The field \<^verbatim>\<open>id\<close> is named
  \<open>id_e\<close> here, and \<^verbatim>\<open>epoch()\<close>, the value-initialised epoch, is \<open>epoch_init\<close>.
\<close>

record epoch =
  id_e :: int
  t0 :: time_type
  t1 :: time_type

definition epoch_init :: epoch where
  "epoch_init = \<lparr>id_e = 0, t0 = 0, t1 = 0\<rparr>"

definition epoch_reset :: "epoch \<Rightarrow> epoch" where
  "epoch_reset e = epoch_init"

definition advance_to :: "epoch \<Rightarrow> time_type \<Rightarrow> epoch" where
  "advance_to e t = \<lparr>id_e = id_e e + 1, t0 = t1 e, t1 = t\<rparr>"

definition empty_epoch :: "epoch \<Rightarrow> bool" where
  "empty_epoch e \<longleftrightarrow> t0 e = t1 e"

text \<open>
  Modelled from the spec: "Spike: \<^verbatim>\<open>{source: global cell id, time}\<close>". The driver only
  moves spikes between its collaborators.
\<close>

record spike =
  source :: cell_gid_type
  spike_time :: time_type

record gid_local_info =
  cell_index :: cell_size_type
  group_index :: cell_size_type

datatype error = bad_event_time time_type time_type | domain_error string

text \<open>
  The private members of \<^verbatim>\<open>simulation_state\<close> that the operations below read or write.
  A member \<^verbatim>\<open>name_\<close> of the source is the field \<open>name_m\<close>. Cell groups, event
  generators and the communicator are collaborators whose state is opaque (the type
  parameters \<open>'g\<close>, \<open>'gen\<close> and \<open>'c\<close>). The two-element arrays
  \<^verbatim>\<open>event_lanes_\<close> and \<^verbatim>\<open>local_spikes_\<close> are pairs (index 0, index 1); a
  \<^verbatim>\<open>thread_private_spike_store\<close> is the list of the spikes it holds. The task system,
  the sampler handles and the two export callbacks are left out: no operation below
  depends on them, and the callbacks only observe the spikes.
\<close>

record ('g, 'gen, 'c) simulation_state =
  epoch_m :: epoch
  t_interval_m :: time_type
  cell_groups_m :: "'g list"
  event_generators_m :: "'gen list list"
  gid_to_local_m :: "cell_gid_type \<rightharpoonup> gid_local_info"
  communicator_m :: 'c
  pending_events_m :: "pse list list"
  event_lanes_m :: "pse list list \<times> pse list list"
  local_spikes_m :: "spike list \<times> spike list"

text \<open>
  The operations of the collaborators that the driver calls, as functions on their opaque
  states: \<^verbatim>\<open>cell_group\<close> (\<^verbatim>\<open>reset\<close>, \<^verbatim>\<open>advance\<close>, \<^verbatim>\<open>spikes\<close>, \<^verbatim>\<open>clear_spikes\<close>),
  \<^verbatim>\<open>event_generator\<close> (\<^verbatim>\<open>events\<close>, \<^verbatim>\<open>reset\<close>) and \<^verbatim>\<open>communicator\<close> (\<^verbatim>\<open>reset\<close>,
  \<^verbatim>\<open>exchange\<close>, \<^verbatim>\<open>make_event_queues\<close>, \<^verbatim>\<open>group_queue_range\<close>, \<^verbatim>\<open>num_local_cells\<close>).
  A collaborator that throws is not modelled.
\<close>

record ('g, 'gen, 'c) collaborators =
  group_reset :: "'g \<Rightarrow> 'g"
  group_advance :: "epoch \<Rightarrow> time_type \<Rightarrow> pse list list \<Rightarrow> 'g \<Rightarrow> 'g"
  group_spikes :: "'g \<Rightarrow> spike list"
  group_clear_spikes :: "'g \<Rightarrow> 'g"
  generator_events :: "time_type \<Rightarrow> time_type \<Rightarrow> 'gen \<Rightarrow> pse list \<times> 'gen"
  generator_reset :: "'gen \<Rightarrow> 'gen"
  communicator_reset :: "'c \<Rightarrow> 'c"
  communicator_exchange :: "spike list \<Rightarrow> 'c \<Rightarrow> spike list \<times> 'c"
  make_event_queues :: "spike list \<Rightarrow> pse list list \<Rightarrow> 'c \<Rightarrow> pse list list \<times> 'c"
  group_queue_range :: "'c \<Rightarrow> nat \<Rightarrow> nat \<times> nat"
  num_local_cells :: "'c \<Rightarrow> nat"

text \<open>
  \<^verbatim>\<open>event_lanes(epoch_id)\<close> is \<^verbatim>\<open>event_lanes_[epoch_id&1]\<close>, and likewise
  \<^verbatim>\<open>local_spikes(epoch_id)\<close>; the \<open>set_\<close> functions write through the reference.
\<close>

definition event_lanes :: "int \<Rightarrow> ('g, 'gen, 'c) simulation_state \<Rightarrow> pse list list" where
  "event_lanes k s = (if k AND 1 = 0 then fst (event_lanes_m s) else snd (event_lanes_m s))"

definition set_event_lanes ::
  "int \<Rightarrow> pse list list \<Rightarrow> ('g, 'gen, 'c) simulation_state \<Rightarrow> ('g, 'gen, 'c) simulation_state" where
  "set_event_lanes k v s =
     s\<lparr>event_lanes_m :=
         (if k AND 1 = 0 then (v, snd (event_lanes_m s)) else (fst (event_lanes_m s), v))\<rparr>"

definition local_spikes :: "int \<Rightarrow> ('g, 'gen, 'c) simulation_state \<Rightarrow> spike list" where
  "local_spikes k s = (if k AND 1 = 0 then fst (local_spikes_m s) else snd (local_spikes_m s))"

definition set_local_spikes ::
  "int \<Rightarrow> spike list \<Rightarrow> ('g, 'gen, 'c) simulation_state \<Rightarrow> ('g, 'gen, 'c) simulation_state" where
  "set_local_spikes k v s =
     s\<lparr>local_spikes_m :=
         (if k AND 1 = 0 then (v, snd (local_spikes_m s)) else (fst (local_spikes_m s), v))\<rparr>"

section \<open>Reset and injection\<close>

text \<open>\<^verbatim>\<open>simulation_state::reset\<close>, statement by statement.\<close>

definition reset ::
  "('g, 'gen, 'c) collaborators \<Rightarrow> ('g, 'gen, 'c) simulation_state \<Rightarrow> ('g, 'gen, 'c) simulation_state" where
  "reset C s =
     (let s = s\<lparr>epoch_m := epoch_init\<rparr>;
          s = s\<lparr>cell_groups_m := map (group_reset C) (cell_groups_m s)\<rparr>;
          s = s\<lparr>event_lanes_m :=
                (map (\<lambda>lane. []) (fst (event_lanes_m s)), map (\<lambda>lane. []) (snd (event_lanes_m s)))\<rparr>;
          s = s\<lparr>event_generators_m := map (map (generator_reset C)) (event_generators_m s)\<rparr>;
          s = s\<lparr>pending_events_m := map (\<lambda>lane. []) (pending_events_m s)\<rparr>;
          s = s\<lparr>communicator_m := communicator_reset C (communicator_m s)\<rparr>;
          s = s\<lparr>local_spikes_m := ([], [])\<rparr>
      in s\<lparr>epoch_m := epoch_reset (epoch_m s)\<rparr>)"

text \<open>
  \<^verbatim>\<open>simulation_state::inject_events\<close>. The argument is a \<^verbatim>\<open>cse_vector\<close>, a sequence
  of (gid, events) entries visited in order. The exception leaves the object as it is at
  the \<^verbatim>\<open>throw\<close>, so the error comes with the state reached: \<open>Inl (error, state)\<close>.
  \<open>inject_cell_events\<close> is the inner loop over the events of one entry and
  \<open>push_pending\<close> the lookup of the gid with the \<^verbatim>\<open>push_back\<close> under it.
  \<^verbatim>\<open>pending_events_[i]\<close> is read with \<open>!\<close> and written with a list update; the
  constructor sizes \<^verbatim>\<open>pending_events_\<close> so that every \<^verbatim>\<open>cell_index\<close> of
  \<^verbatim>\<open>gid_to_local_\<close> is in range.
\<close>

definition push_pending ::
  "('g, 'gen, 'c) simulation_state \<Rightarrow> cell_gid_type \<Rightarrow> pse \<Rightarrow> ('g, 'gen, 'c) simulation_state" where
  "push_pending s gid e =
     (case gid_to_local_m s gid of
        Some lidx \<Rightarrow>
          s\<lparr>pending_events_m :=
              (pending_events_m s)[cell_index lidx := pending_events_m s ! cell_index lidx @ [e]]\<rparr>
      | None \<Rightarrow> s)"

fun inject_cell_events ::
  "('g, 'gen, 'c) simulation_state \<Rightarrow> cell_gid_type \<Rightarrow> pse list \<Rightarrow>
   (error \<times> ('g, 'gen, 'c) simulation_state) + ('g, 'gen, 'c) simulation_state" where
  "inject_cell_events s gid [] = Inr s"
| "inject_cell_events s gid (e # es) =
     (if time e < t1 (epoch_m s) then Inl (bad_event_time (time e) (t1 (epoch_m s)), s)
      else inject_cell_events (push_pending s gid e) gid es)"

fun inject_events ::
  "('g, 'gen, 'c) simulation_state \<Rightarrow> (cell_gid_type \<times> pse list) list \<Rightarrow>
   (error \<times> ('g, 'gen, 'c) simulation_state) + ('g, 'gen, 'c) simulation_state" where
  "inject_events s [] = Inr s"
| "inject_events s ((gid, pse_vector) # events) =
     (case inject_cell_events s gid pse_vector of
        Inl err \<Rightarrow> Inl err
      | Inr s' \<Rightarrow> inject_events s' events)"

section \<open>The epoch pipeline\<close>

text \<open>The lambda \<^verbatim>\<open>next_epoch\<close> of \<^verbatim>\<open>run\<close>, with its capture \<^verbatim>\<open>tfinal\<close> first.\<close>

definition next_epoch :: "time_type \<Rightarrow> epoch \<Rightarrow> time_type \<Rightarrow> epoch" where
  "next_epoch tfinal e interval = advance_to e (min (t1 e + interval) tfinal)"

definition subrange_view :: "'a list \<Rightarrow> nat \<times> nat \<Rightarrow> 'a list" where
  "subrange_view xs r = take (snd r - fst r) (drop (fst r) xs)"

text \<open>
  The tasks \<^verbatim>\<open>update\<close>, \<^verbatim>\<open>exchange\<close> and \<^verbatim>\<open>enqueue\<close>. The parallel loops over the
  groups and over the cells are run in index order: each iteration writes only its own
  group or cell, and the spike store accepts insertions in any order.
\<close>

definition update_group ::
  "('g, 'gen, 'c) collaborators \<Rightarrow> time_type \<Rightarrow> epoch \<Rightarrow> ('g, 'gen, 'c) simulation_state \<Rightarrow> nat \<Rightarrow>
   ('g, 'gen, 'c) simulation_state" where
  "update_group C dt current s i =
     (let queues = subrange_view (event_lanes (id_e current) s)
                     (group_queue_range C (communicator_m s) i);
          group = group_advance C current dt queues (cell_groups_m s ! i);
          s = set_local_spikes (id_e current)
                (local_spikes (id_e current) s @ group_spikes C group) s;
          group = group_clear_spikes C group
      in s\<lparr>cell_groups_m := (cell_groups_m s)[i := group]\<rparr>)"

definition update ::
  "('g, 'gen, 'c) collaborators \<Rightarrow> time_type \<Rightarrow> epoch \<Rightarrow> ('g, 'gen, 'c) simulation_state \<Rightarrow>
   ('g, 'gen, 'c) simulation_state" where
  "update C dt current s =
     fold (\<lambda>i s. update_group C dt current s i) [0..<length (cell_groups_m s)]
       (set_local_spikes (id_e current) [] s)"

definition exchange ::
  "('g, 'gen, 'c) collaborators \<Rightarrow> epoch \<Rightarrow> ('g, 'gen, 'c) simulation_state \<Rightarrow>
   ('g, 'gen, 'c) simulation_state" where
  "exchange C prev s =
     (let all_local_spikes = local_spikes (id_e prev) s;
          (global_spikes, c) = communicator_exchange C all_local_spikes (communicator_m s);
          (queues, c) = make_event_queues C global_spikes (pending_events_m s) c
      in s\<lparr>communicator_m := c, pending_events_m := queues\<rparr>)"

text \<open>
  One cell of \<^verbatim>\<open>enqueue\<close>: \<^verbatim>\<open>util::sort\<close> sorts the pending events of the cell
  in place by \<^verbatim>\<open>operator<\<close> (\<open>pending\<close> is the view of the sorted vector), the
  merger writes lane \<open>i\<close> of the epoch from lane \<open>i\<close> of the epoch before, and the
  pending buffer is cleared.
\<close>

definition enqueue_cell ::
  "('g, 'gen, 'c) collaborators \<Rightarrow> epoch \<Rightarrow> ('g, 'gen, 'c) simulation_state \<Rightarrow> nat \<Rightarrow>
   ('g, 'gen, 'c) simulation_state" where
  "enqueue_cell C next s i =
     (let pending = sort_key pse_key (pending_events_m s ! i);
          s = s\<lparr>pending_events_m := (pending_events_m s)[i := pending]\<rparr>;
          old_events = event_lanes (id_e next - 1) s ! i;
          (generators, new_events) =
             merge_cell_events (generator_events C) (t0 next) (t1 next) old_events pending
               (event_generators_m s ! i) (event_lanes (id_e next) s ! i);
          s = s\<lparr>event_generators_m := (event_generators_m s)[i := generators]\<rparr>;
          s = set_event_lanes (id_e next) ((event_lanes (id_e next) s)[i := new_events]) s
      in s\<lparr>pending_events_m := (pending_events_m s)[i := []]\<rparr>)"

definition enqueue ::
  "('g, 'gen, 'c) collaborators \<Rightarrow> epoch \<Rightarrow> ('g, 'gen, 'c) simulation_state \<Rightarrow>
   ('g, 'gen, 'c) simulation_state" where
  "enqueue C next s =
     fold (\<lambda>i s. enqueue_cell C next s i) [0..<num_local_cells C (communicator_m s)] s"

text \<open>
  The \<^verbatim>\<open>for (;;)\<close> loop of \<^verbatim>\<open>run\<close>, entered at the top of its body with the values of
  \<^verbatim>\<open>prev\<close>, \<^verbatim>\<open>current\<close> and \<^verbatim>\<open>next\<close>; it returns their values at the \<^verbatim>\<open>break\<close>.
  Nothing in the loop bounds the number of iterations, so a loop that never breaks is
  \<open>None\<close>. Two tasks handed to the task group write disjoint members; they are run one
  after the other, in the order in which they are handed over.
\<close>

partial_function (option) run_loop ::
  "('g, 'gen, 'c) collaborators \<Rightarrow> time_type \<Rightarrow> time_type \<Rightarrow> epoch \<Rightarrow> epoch \<Rightarrow> epoch \<Rightarrow>
   ('g, 'gen, 'c) simulation_state \<Rightarrow> (epoch \<times> epoch \<times> ('g, 'gen, 'c) simulation_state) option" where
  "run_loop C tfinal dt prev current next s =
     (if empty_epoch (next_epoch tfinal next (t_interval_m s))
      then Some (current, next, s)
      else run_loop C tfinal dt current next (next_epoch tfinal next (t_interval_m s))
             (update C dt next
               (enqueue C (next_epoch tfinal next (t_interval_m s)) (exchange C current s))))"

declare run_loop.simps [code]

text \<open>\<^verbatim>\<open>simulation_state::run\<close>: the time reached and the state, when it returns.\<close>

definition run ::
  "('g, 'gen, 'c) collaborators \<Rightarrow> ('g, 'gen, 'c) simulation_state \<Rightarrow> time_type \<Rightarrow> time_type \<Rightarrow>
   (time_type \<times> ('g, 'gen, 'c) simulation_state) option" where
  "run C s tfinal dt =
     (if tfinal \<le> t1 (epoch_m s) then Some (t1 (epoch_m s), s)
      else
        (let prev = epoch_m s;
             current = next_epoch tfinal prev (t_interval_m s);
             next = next_epoch tfinal current (t_interval_m s)
         in if empty_epoch next then
              (let s = enqueue C current s;
                   s = update C dt current s;
                   s = exchange C current s
               in Some (t1 current, s\<lparr>epoch_m := current\<rparr>))
            else
              (let s = enqueue C current s;
                   s = enqueue C next s;
                   s = update C dt current s
               in case run_loop C tfinal dt prev current next s of
                    None \<Rightarrow> None
                  | Some (prev, current, s) \<Rightarrow>
                      (let s = exchange C prev s;
                           s = update C dt current s;
                           s = exchange C current s
                       in Some (t1 current, s\<lparr>epoch_m := current\<rparr>)))))"

text \<open>
  \<^verbatim>\<open>simulation::run\<close>, the public entry: the check of \<^verbatim>\<open>dt\<close>, then the
  implementation. The exception is thrown before anything is written.
\<close>

definition simulation_run ::
  "('g, 'gen, 'c) collaborators \<Rightarrow> ('g, 'gen, 'c) simulation_state \<Rightarrow> time_type \<Rightarrow> time_type \<Rightarrow>
   (error + time_type \<times> ('g, 'gen, 'c) simulation_state) option" where
  "simulation_run C s tfinal dt =
     (if dt \<le> 0 then Some (Inl (domain_error ''Finite time-step must be supplied.''))
      else map_option Inr (run C s tfinal dt))"

section \<open>Notions used to state the properties\<close>

text \<open>The (gid, event) pairs of a call of \<^verbatim>\<open>inject_events\<close>, in the order of the two loops.\<close>

definition events_in_order :: "(cell_gid_type \<times> pse list) list \<Rightarrow> (cell_gid_type \<times> pse) list" where
  "events_in_order events = concat (map (\<lambda>(gid, pse_vector). map (Pair gid) pse_vector) events)"

text \<open>
  A sequence of calls of the public \<^verbatim>\<open>run\<close>, each on the state the previous one left:
  the times returned and the final state, when every call returns without an exception.
\<close>

fun run_calls ::
  "('g, 'gen, 'c) collaborators \<Rightarrow> ('g, 'gen, 'c) simulation_state \<Rightarrow> (time_type \<times> time_type) list \<Rightarrow>
   (time_type list \<times> ('g, 'gen, 'c) simulation_state) option" where
  "run_calls C s [] = Some ([], s)"
| "run_calls C s ((tfinal, dt) # calls) =
     (case simulation_run C s tfinal dt of
        Some (Inr (t, s')) \<Rightarrow>
          (case run_calls C s' calls of
             Some (ts, s'') \<Rightarrow> Some (t # ts, s'')
           | None \<Rightarrow> None)
      | _ \<Rightarrow> None)"

text \<open>
  Every event lane of both buffers is time-sorted, and the two buffers have a lane for
  the same cells (the constructor sizes both to the number of local cells). Every pending
  buffer is time-sorted.
\<close>

definition lanes_sorted :: "('g, 'gen, 'c) simulation_state \<Rightarrow> bool" where
  "lanes_sorted s \<longleftrightarrow>
     list_all time_sorted (fst (event_lanes_m s)) \<and> list_all time_sorted (snd (event_lanes_m s)) \<and>
     length (fst (event_lanes_m s)) = length (snd (event_lanes_m s))"

definition pending_sorted :: "('g, 'gen, 'c) simulation_state \<Rightarrow> bool" where
  "pending_sorted s \<longleftrightarrow> list_all time_sorted (pending_events_m s)"

section \<open>Example collaborators\<close>

text \<open>
  Concrete collaborators on which the theorems below are exercised. A \<open>silent_generator\<close>
  never produces an event. A \<open>tick_generator\<close> is a generator whose state is the index
  of its target; asked for a non-empty interval it produces one event at the start of the
  interval.
\<close>

definition silent_generator :: "time_type \<Rightarrow> time_type \<Rightarrow> unit \<Rightarrow> pse list \<times> unit" where
  "silent_generator t_from t_to g = ([], g)"

definition tick_generator :: "time_type \<Rightarrow> time_type \<Rightarrow> nat \<Rightarrow> pse list \<times> nat" where
  "tick_generator t_from t_to g =
     (if t_from < t_to then [\<lparr>target = g, weight = 1, time = t_from\<rparr>] else [], g)"

text \<open>
  A rank with two cells in two groups, gids 10 and 20, one \<open>tick_generator\<close> on the
  first cell, groups that never spike and a communicator that delivers nothing. The state
  is the one the constructor leaves, with a minimum delay of 2; \<open>example_state_at_5\<close>
  is that state with the epoch \<open>[4, 5)\<close> recorded.
\<close>

definition example_collaborators :: "(unit, nat, unit) collaborators" where
  "example_collaborators =
     \<lparr>group_reset = (\<lambda>g. g),
      group_advance = (\<lambda>ep dt queues g. g),
      group_spikes = (\<lambda>g. []),
      group_clear_spikes = (\<lambda>g. g),
      generator_events = tick_generator,
      generator_reset = (\<lambda>g. g),
      communicator_reset = (\<lambda>c. c),
      communicator_exchange = (\<lambda>spikes c. (spikes, c)),
      make_event_queues = (\<lambda>spikes queues c. (queues, c)),
      group_queue_range = (\<lambda>c i. (i, i + 1)),
      num_local_cells = (\<lambda>c. 2)\<rparr>"

definition example_state :: "(unit, nat, unit) simulation_state" where
  "example_state =
     \<lparr>epoch_m = epoch_init,
      t_interval_m = 1,
      cell_groups_m = [(), ()],
      event_generators_m = [[0], []],
      gid_to_local_m = [10 \<mapsto> \<lparr>cell_index = 0, group_index = 0\<rparr>,
                        20 \<mapsto> \<lparr>cell_index = 1, group_index = 1\<rparr>],
      communicator_m = (),
      pending_events_m = [[], []],
      event_lanes_m = ([[], []], [[], []]),
      local_spikes_m = ([], [])\<rparr>"

definition example_state_at_5 :: "(unit, nat, unit) simulation_state" where
  "example_state_at_5 = example_state\<lparr>epoch_m := \<lparr>id_e = 5, t0 = 4, t1 = 5\<rparr>\<rparr>"

text \<open>
  The state the constructor leaves, after the events at times 7 and 6 (in this order) have
  been injected for gid 10.
\<close>

definition example_state_pending :: "(unit, nat, unit) simulation_state" where
  "example_state_pending =
     example_state\<lparr>pending_events_m :=
       [[\<lparr>target = 0, weight = 1, time = 7\<rparr>, \<lparr>target = 0, weight = 1, time = 6\<rparr>], []]\<rparr>"

text \<open>
  The states reached from \<open>example_state_pending\<close> by a run to time 1 and then by a
  run to time 2: lane 0 of each written buffer holds the generator's event of the epoch
  followed by the two injected events.
\<close>

definition example_state_after_1 :: "(unit, nat, unit) simulation_state" where
  "example_state_after_1 =
     example_state\<lparr>epoch_m := \<lparr>id_e = 1, t0 = 0, t1 = 1\<rparr>,
       event_lanes_m :=
         ([[], []],
          [[\<lparr>target = 0, weight = 1, time = 0\<rparr>, \<lparr>target = 0, weight = 1, time = 6\<rparr>,
            \<lparr>target = 0, weight = 1, time = 7\<rparr>], []])\<rparr>"

definition example_state_after_2 :: "(unit, nat, unit) simulation_state" where
  "example_state_after_2 =
     example_state\<lparr>epoch_m := \<lparr>id_e = 2, t0 = 1, t1 = 2\<rparr>,
       event_lanes_m :=
         ([[\<lparr>target = 0, weight = 1, time = 1\<rparr>, \<lparr>target = 0, weight = 1, time = 6\<rparr>,
            \<lparr>target = 0, weight = 1, time = 7\<rparr>], []],
          [[\<lparr>target = 0, weight = 1, time = 0\<rparr>, \<lparr>target = 0, weight = 1, time = 6\<rparr>,
            \<lparr>target = 0, weight = 1, time = 7\<rparr>], []])\<rparr>"

section \<open>Properties of the event merger\<close>

subsection \<open>Auxiliary facts\<close>

lemma pse_less_time: "pse_less y x \<Longrightarrow> time y \<le> time x"
  by (auto simp: pse_less_def pse_key_def less_prod_def)

lemma not_pse_less_time: "\<not> pse_less y x \<Longrightarrow> time x \<le> time y"
  by (auto simp: pse_less_def pse_key_def less_prod_def not_less less_eq_prod_def split: if_splits)

lemma mset_std_merge: "mset (std_merge xs ys) = mset xs + mset ys"
  by (induction xs ys rule: std_merge.induct) auto

lemma set_std_merge: "set (std_merge xs ys) = set xs \<union> set ys"
  by (induction xs ys rule: std_merge.induct) auto

lemma time_sorted_Cons: "time_sorted (x # xs) \<longleftrightarrow> (\<forall>e\<in>set xs. time x \<le> time e) \<and> time_sorted xs"
  by (auto simp: time_sorted_def)

lemma time_sorted_Nil: "time_sorted []"
  by (simp add: time_sorted_def)

lemma time_sorted_append:
  "time_sorted (xs @ ys) \<longleftrightarrow>
     time_sorted xs \<and> time_sorted ys \<and> (\<forall>x\<in>set xs. \<forall>y\<in>set ys. time x \<le> time y)"
  by (auto simp: time_sorted_def sorted_append)

lemma time_sorted_std_merge:
  "time_sorted xs \<Longrightarrow> time_sorted ys \<Longrightarrow> time_sorted (std_merge xs ys)"
proof (induction xs ys rule: std_merge.induct)
  case (3 x xs y ys)
  show ?case
  proof (cases "pse_less y x")
    case True
    with 3 pse_less_time[OF True] show ?thesis
      by (fastforce simp: time_sorted_Cons set_std_merge)
  next
    case False
    with 3 not_pse_less_time[OF False] show ?thesis
      by (fastforce simp: time_sorted_Cons set_std_merge)
  qed
qed (simp_all add: time_sorted_Nil)

lemma mset_merge_by_time: "mset (merge_by_time xs ys) = mset xs + mset ys"
  by (induction xs ys rule: merge_by_time.induct) auto

lemma set_merge_by_time: "set (merge_by_time xs ys) = set xs \<union> set ys"
  by (induction xs ys rule: merge_by_time.induct) auto

lemma time_sorted_merge_by_time:
  "time_sorted xs \<Longrightarrow> time_sorted ys \<Longrightarrow> time_sorted (merge_by_time xs ys)"
  by (induction xs ys rule: merge_by_time.induct)
     (fastforce simp: time_sorted_Cons set_merge_by_time time_sorted_Nil)+

lemma set_foldr_merge_by_time: "set (foldr merge_by_time spans []) = \<Union> (set ` set spans)"
  by (induction spans) (auto simp: set_merge_by_time)

lemma mset_foldr_merge_by_time: "mset (foldr merge_by_time spans []) = mset (concat spans)"
  by (induction spans) (auto simp: mset_merge_by_time)

lemma time_sorted_foldr_merge_by_time:
  "\<forall>sp\<in>set spans. time_sorted sp \<Longrightarrow> time_sorted (foldr merge_by_time spans [])"
  by (induction spans) (auto simp: time_sorted_merge_by_time time_sorted_Nil)

lemma time_sorted_dropWhile:
  "time_sorted xs \<Longrightarrow> dropWhile (\<lambda>e. time e < v) xs = filter (\<lambda>e. v \<le> time e) xs"
proof (induction xs)
  case (Cons x xs)
  then show ?case
    by (force simp: time_sorted_Cons not_less intro: filter_True[symmetric])
qed simp

lemma time_sorted_takeWhile:
  "time_sorted xs \<Longrightarrow> takeWhile (\<lambda>e. time e < v) xs = filter (\<lambda>e. time e < v) xs"
proof (induction xs)
  case (Cons x xs)
  show ?case
  proof (cases "time x < v")
    case True
    with Cons show ?thesis by (simp add: time_sorted_Cons)
  next
    case False
    with Cons.prems have "\<forall>e\<in>set xs. \<not> time e < v"
      by (auto simp: time_sorted_Cons)
    then have "filter (\<lambda>e. time e < v) xs = []"
      by (simp add: filter_empty_conv)
    with False show ?thesis by simp
  qed
qed simp

lemma time_sorted_filter: "time_sorted xs \<Longrightarrow> time_sorted (filter P xs)"
  by (simp add: time_sorted_def sorted_filter)

lemma generator_spans_set:
  "set (fst (generator_spans ev a b gs)) \<subseteq> (\<lambda>g. fst (ev a b g)) ` set gs"
  by (induction gs) (auto split: prod.splits)

lemma generator_spans_concat:
  "concat (fst (generator_spans ev a b gs)) = concat (map (\<lambda>g. fst (ev a b g)) gs)"
  by (induction gs) (auto split: prod.splits)

lemma merge_cell_events_no_generators:
  "merge_cell_events ev t_from t_to old_events pending [] out =
     ([], std_merge pending (dropWhile (\<lambda>e. time e < t_from) old_events))"
  by (simp add: merge_cell_events_def split_sorted_range_def event_time_less_def)

lemma merge_cell_events_generators:
  "generators \<noteq> [] \<Longrightarrow>
   snd (merge_cell_events ev t_from t_to old_events pending generators out) =
     foldr merge_by_time
       ([takeWhile (\<lambda>e. time e < t_to) (dropWhile (\<lambda>e. time e < t_from) old_events),
         takeWhile (\<lambda>e. time e < t_to) pending]
        @ fst (generator_spans ev t_from t_to generators)) []
     @ std_merge (dropWhile (\<lambda>e. time e < t_to) pending)
         (dropWhile (\<lambda>e. time e < t_to) (dropWhile (\<lambda>e. time e < t_from) old_events))"
  by (simp add: merge_cell_events_def split_sorted_range_def event_time_less_def
      tree_merge_events_def Let_def split: prod.splits)

lemma mset_merge_cell_events:
  "mset (snd (merge_cell_events ev t_from t_to old_events pending generators out)) =
     mset (dropWhile (\<lambda>e. time e < t_from) old_events) + mset pending +
     mset (concat (map (\<lambda>g. fst (ev t_from t_to g)) generators))"
proof (cases "generators = []")
  case True
  then show ?thesis
    by (simp add: merge_cell_events_no_generators mset_std_merge)
next
  case False
  have split: "mset (takeWhile P xs) + mset (dropWhile P xs) = mset xs" for P and xs :: "pse list"
    by (metis mset_append takeWhile_dropWhile_id)
  have "mset (snd (merge_cell_events ev t_from t_to old_events pending generators out)) =
      (mset (takeWhile (\<lambda>e. time e < t_to) (dropWhile (\<lambda>e. time e < t_from) old_events)) +
       mset (dropWhile (\<lambda>e. time e < t_to) (dropWhile (\<lambda>e. time e < t_from) old_events))) +
      (mset (takeWhile (\<lambda>e. time e < t_to) pending) +
       mset (dropWhile (\<lambda>e. time e < t_to) pending)) +
      mset (concat (map (\<lambda>g. fst (ev t_from t_to g)) generators))"
    unfolding merge_cell_events_generators[OF False]
    by (simp add: mset_foldr_merge_by_time mset_merge_by_time mset_std_merge
        generator_spans_concat)
  then show ?thesis
    by (simp only: split)
qed

lemma time_sorted_merge_cell_events:
  assumes old: "time_sorted old_events" and pend: "time_sorted pending"
    and gens: "\<forall>g\<in>set generators. time_sorted (fst (ev t_from t_to g)) \<and>
                 (\<forall>e\<in>set (fst (ev t_from t_to g)). time e < t_to)"
  shows "time_sorted (snd (merge_cell_events ev t_from t_to old_events pending generators out))"
proof (cases "generators = []")
  case True
  from old have "time_sorted (dropWhile (\<lambda>e. time e < t_from) old_events)"
    by (simp add: time_sorted_dropWhile time_sorted_filter)
  with pend True show ?thesis
    by (simp add: merge_cell_events_no_generators time_sorted_std_merge)
next
  case False
  let ?old = "dropWhile (\<lambda>e. time e < t_from) old_events"
  let ?spans = "[takeWhile (\<lambda>e. time e < t_to) ?old, takeWhile (\<lambda>e. time e < t_to) pending]
        @ fst (generator_spans ev t_from t_to generators)"
  have old': "time_sorted ?old"
    using old by (simp add: time_sorted_dropWhile time_sorted_filter)
  have gspans: "\<forall>sp\<in>set (fst (generator_spans ev t_from t_to generators)).
      time_sorted sp \<and> (\<forall>e\<in>set sp. time e < t_to)"
    using gens generator_spans_set[of ev t_from t_to generators] by blast
  have spans_sorted: "\<forall>sp\<in>set ?spans. time_sorted sp"
    using old' pend gspans by (auto simp: time_sorted_takeWhile time_sorted_filter)
  have spans_window: "\<forall>sp\<in>set ?spans. \<forall>e\<in>set sp. time e < t_to"
    using gspans by (auto dest: set_takeWhileD)
  have head: "time_sorted (foldr merge_by_time ?spans [])"
    by (rule time_sorted_foldr_merge_by_time[OF spans_sorted])
  have head_window: "\<forall>e\<in>set (foldr merge_by_time ?spans []). time e < t_to"
    unfolding set_foldr_merge_by_time using spans_window by blast
  have tail: "time_sorted (std_merge (dropWhile (\<lambda>e. time e < t_to) pending)
      (dropWhile (\<lambda>e. time e < t_to) ?old))"
    using old' pend
    by (intro time_sorted_std_merge) (simp_all add: time_sorted_dropWhile time_sorted_filter)
  have tail_window: "\<forall>e\<in>set (std_merge (dropWhile (\<lambda>e. time e < t_to) pending)
      (dropWhile (\<lambda>e. time e < t_to) ?old)). t_to \<le> time e"
    using old' pend by (auto simp: set_std_merge time_sorted_dropWhile)
  show ?thesis
    unfolding merge_cell_events_generators[OF False] time_sorted_append
    using head tail head_window tail_window by fastforce
qed

lemma merge_cell_events_from:
  assumes old: "time_sorted old_events"
    and pend: "\<forall>e\<in>set pending. t_from \<le> time e"
    and gens: "\<forall>g\<in>set generators. \<forall>e\<in>set (fst (ev t_from t_to g)). t_from \<le> time e"
  shows "\<forall>e\<in>set (snd (merge_cell_events ev t_from t_to old_events pending generators out)).
           t_from \<le> time e"
proof -
  have "set (snd (merge_cell_events ev t_from t_to old_events pending generators out)) =
      set (dropWhile (\<lambda>e. time e < t_from) old_events) \<union> set pending \<union>
      (\<Union>g\<in>set generators. set (fst (ev t_from t_to g)))"
    using arg_cong[OF mset_merge_cell_events[of ev t_from t_to old_events pending generators out],
        of set_mset]
    by simp
  then show ?thesis
    using old pend gens by (auto simp: time_sorted_dropWhile)
qed

lemma merge_cell_events_present:
  assumes old: "time_sorted old_events" and le: "t_from \<le> t_to"
  shows "filter_mset (\<lambda>e. t_to \<le> time e) (mset old_events + mset pending)
           \<subseteq># mset (snd (merge_cell_events ev t_from t_to old_events pending generators out))"
  unfolding mset_merge_cell_events
proof (rule mset_subset_eqI)
  fix a
  have "count (filter_mset (\<lambda>e. t_to \<le> time e) (mset old_events)) a
      \<le> count (mset (dropWhile (\<lambda>e. time e < t_from) old_events)) a"
    using le by (simp add: time_sorted_dropWhile[OF old])
  then show "count (filter_mset (\<lambda>e. t_to \<le> time e) (mset old_events + mset pending)) a
      \<le> count (mset (dropWhile (\<lambda>e. time e < t_from) old_events) + mset pending +
           mset (concat (map (\<lambda>g. fst (ev t_from t_to g)) generators))) a"
    by (auto split: if_splits)
qed


text \<open>
  C10. \<^verbatim>\<open>merge_cell_events\<close> clears the output vector before it writes: two calls that
  agree on \<^verbatim>\<open>t_from\<close>, \<^verbatim>\<open>t_to\<close>, \<^verbatim>\<open>old_events\<close>, \<^verbatim>\<open>pending\<close> and the generators
  leave the same contents in \<^verbatim>\<open>out\<close> (and the same generators), whatever \<^verbatim>\<open>out\<close>
  held before.
\<close>

theorem merge_cell_events_ignores_prior_out:
  "merge_cell_events ev t_from t_to old_events pending generators out1 =
   merge_cell_events ev t_from t_to old_events pending generators out2"
  by (simp add: merge_cell_events_def)

subsection \<open>Order, lower bound and carried-over events\<close>

text \<open>
  C2 (amended). \<^verbatim>\<open>merge_cell_events\<close> drops the events before \<^verbatim>\<open>t_from\<close> from
  \<^verbatim>\<open>old_events\<close> only; \<^verbatim>\<open>pending\<close> is merged as it is. For a call with
  \<^verbatim>\<open>t_from \<le> t_to\<close>, \<^verbatim>\<open>old_events\<close> and \<^verbatim>\<open>pending\<close> sorted by time, no pending event
  before \<^verbatim>\<open>t_from\<close>, and generators that return time-sorted events inside
  \<^verbatim>\<open>[t_from, t_to)\<close>: the output is time-sorted, every event in it has time at least
  \<^verbatim>\<open>t_from\<close>, and every event of \<^verbatim>\<open>old_events\<close> or \<^verbatim>\<open>pending\<close> with time at least
  \<^verbatim>\<open>t_to\<close> is in the output, as often as in the inputs.
\<close>

theorem merge_cell_events_sorted_from_present:
  assumes "time_sorted old_events" and "time_sorted pending"
    and "\<forall>e\<in>set pending. t_from \<le> time e"
    and "t_from \<le> t_to"
    and "\<forall>g\<in>set generators. time_sorted (fst (ev t_from t_to g)) \<and>
           (\<forall>e\<in>set (fst (ev t_from t_to g)). t_from \<le> time e \<and> time e < t_to)"
  shows "time_sorted (snd (merge_cell_events ev t_from t_to old_events pending generators out)) \<and>
         (\<forall>e\<in>set (snd (merge_cell_events ev t_from t_to old_events pending generators out)).
            t_from \<le> time e) \<and>
         filter_mset (\<lambda>e. t_to \<le> time e) (mset old_events + mset pending)
           \<subseteq># mset (snd (merge_cell_events ev t_from t_to old_events pending generators out))"
proof (intro conjI)
  show "time_sorted (snd (merge_cell_events ev t_from t_to old_events pending generators out))"
    using assms by (intro time_sorted_merge_cell_events) auto
  show "\<forall>e\<in>set (snd (merge_cell_events ev t_from t_to old_events pending generators out)).
      t_from \<le> time e"
    using assms by (intro merge_cell_events_from) auto
  show "filter_mset (\<lambda>e. t_to \<le> time e) (mset old_events + mset pending)
      \<subseteq># mset (snd (merge_cell_events ev t_from t_to old_events pending generators out))"
    using assms by (intro merge_cell_events_present)
qed

text \<open>
  The theorem at \<^verbatim>\<open>t_from = 0\<close>, \<^verbatim>\<open>t_to = 2\<close>, two old events, two pending events and
  two generators.
\<close>

theorem merge_cell_events_sorted_from_present_witness:
  "time_sorted [\<lparr>target = 0, weight = 1, time = 1\<rparr>, \<lparr>target = 0, weight = 1, time = 2\<rparr>] \<and>
   time_sorted [\<lparr>target = 0, weight = 2, time = 1\<rparr>, \<lparr>target = 0, weight = 2, time = 3\<rparr>] \<and>
   list_all (\<lambda>e. 0 \<le> time e)
     [\<lparr>target = 0, weight = 2, time = 1\<rparr>, \<lparr>target = 0, weight = 2, time = 3\<rparr>] \<and>
   (0 :: time_type) \<le> 2 \<and>
   list_all (\<lambda>g. time_sorted (fst (tick_generator 0 2 g)) \<and>
       list_all (\<lambda>e. 0 \<le> time e \<and> time e < 2) (fst (tick_generator 0 2 g))) [0, 1] \<and>
   time_sorted (snd (merge_cell_events tick_generator 0 2
       [\<lparr>target = 0, weight = 1, time = 1\<rparr>, \<lparr>target = 0, weight = 1, time = 2\<rparr>]
       [\<lparr>target = 0, weight = 2, time = 1\<rparr>, \<lparr>target = 0, weight = 2, time = 3\<rparr>] [0, 1] [])) \<and>
   list_all (\<lambda>e. 0 \<le> time e) (snd (merge_cell_events tick_generator 0 2
       [\<lparr>target = 0, weight = 1, time = 1\<rparr>, \<lparr>target = 0, weight = 1, time = 2\<rparr>]
       [\<lparr>target = 0, weight = 2, time = 1\<rparr>, \<lparr>target = 0, weight = 2, time = 3\<rparr>] [0, 1] [])) \<and>
   {#\<lparr>target = 0, weight = 2, time = 3\<rparr>, \<lparr>target = 0, weight = 1, time = 2\<rparr>#}
     \<subseteq># mset (snd (merge_cell_events tick_generator 0 2
       [\<lparr>target = 0, weight = 1, time = 1\<rparr>, \<lparr>target = 0, weight = 1, time = 2\<rparr>]
       [\<lparr>target = 0, weight = 2, time = 1\<rparr>, \<lparr>target = 0, weight = 2, time = 3\<rparr>] [0, 1] []))"
proof -
  let ?old = "[\<lparr>target = 0, weight = 1, time = 1\<rparr>, \<lparr>target = 0, weight = 1, time = 2\<rparr>]"
  let ?pending = "[\<lparr>target = 0, weight = 2, time = 1\<rparr>, \<lparr>target = 0, weight = 2, time = 3\<rparr>]"
  have h1: "time_sorted ?old" and h2: "time_sorted ?pending"
    by (simp_all add: time_sorted_def)
  have h3: "\<forall>e\<in>set ?pending. (0 :: time_type) \<le> time e"
    by simp
  have h4: "(0 :: time_type) \<le> 2"
    by simp
  have h5: "\<forall>g\<in>set [0, 1 :: nat]. time_sorted (fst (tick_generator 0 2 g)) \<and>
      (\<forall>e\<in>set (fst (tick_generator 0 2 g)). 0 \<le> time e \<and> time e < 2)"
    by (simp add: tick_generator_def time_sorted_def)
  show ?thesis
    using merge_cell_events_sorted_from_present[where ev = tick_generator and t_from = 0
        and t_to = 2 and generators = "[0, 1]" and out = "[]", OF h1 h2 h3 h4 h5] h1 h2 h3 h5
    by (simp add: list_all_iff)
qed

text \<open>
  C2 as stated, for every call with time-sorted \<^verbatim>\<open>old_events\<close> and \<^verbatim>\<open>pending\<close>, fails:
  with \<^verbatim>\<open>t_from = 5\<close> a pending event at time 3 is written to the output.
\<close>

theorem merge_cell_events_pending_before_t_from_counterexample:
  "time_sorted [] \<and> time_sorted [\<lparr>target = 0, weight = 1, time = 3\<rparr>] \<and>
   snd (merge_cell_events silent_generator 5 6 [] [\<lparr>target = 0, weight = 1, time = 3\<rparr>] [] []) =
     [\<lparr>target = 0, weight = 1, time = 3\<rparr>] \<and>
   time \<lparr>target = 0, weight = 1, time = 3\<rparr> < 5"
  by (simp add: time_sorted_def merge_cell_events_def split_sorted_range_def)

subsection \<open>Events at one time\<close>














section \<open>Properties of injection\<close>

subsection \<open>Auxiliary facts\<close>

lemma push_pending_epoch: "epoch_m (push_pending s gid e) = epoch_m s"
  by (simp add: push_pending_def split: option.splits)

lemma push_pending_gid_to_local: "gid_to_local_m (push_pending s gid e) = gid_to_local_m s"
  by (simp add: push_pending_def split: option.splits)

lemma push_pending_foreign: "gid_to_local_m s gid = None \<Longrightarrow> push_pending s gid e = s"
  by (simp add: push_pending_def)

lemma push_pending_lanes: "event_lanes_m (push_pending s gid e) = event_lanes_m s"
  by (simp add: push_pending_def split: option.splits)

lemma fold_push_pending_epoch:
  "epoch_m (fold (\<lambda>(g, x) s. push_pending s g x) xs s) = epoch_m s"
  by (induction xs arbitrary: s) (auto simp: push_pending_epoch)

lemma fold_push_pending_lanes:
  "event_lanes_m (fold (\<lambda>(g, x) s. push_pending s g x) xs s) = event_lanes_m s"
  by (induction xs arbitrary: s) (auto simp: push_pending_lanes)

lemma fold_push_pending_gid_to_local:
  "gid_to_local_m (fold (\<lambda>(g, x) s. push_pending s g x) xs s) = gid_to_local_m s"
  by (induction xs arbitrary: s) (auto simp: push_pending_gid_to_local)

text \<open>
  The inner loop, in one equation: the events up to the first one before \<open>T\<close> are
  pushed; that event, when there is one, raises.
\<close>

lemma inject_cell_events_eq:
  "t1 (epoch_m s) = T \<Longrightarrow>
   inject_cell_events s gid es =
     (case dropWhile (\<lambda>e. T \<le> time e) es of
        [] \<Rightarrow> Inr (fold (\<lambda>(g, x) s. push_pending s g x) (map (Pair gid) es) s)
      | e # _ \<Rightarrow>
          Inl (bad_event_time (time e) T,
               fold (\<lambda>(g, x) s. push_pending s g x)
                 (map (Pair gid) (takeWhile (\<lambda>e. T \<le> time e) es)) s))"
proof (induction es arbitrary: s)
  case Nil
  then show ?case by simp
next
  case (Cons e es)
  show ?case
  proof (cases "time e < T")
    case True
    with Cons.prems show ?thesis by simp
  next
    case False
    have "t1 (epoch_m (push_pending s gid e)) = T"
      using Cons.prems by (simp add: push_pending_epoch)
    from Cons.IH[OF this] False Cons.prems show ?thesis
      by (cases "dropWhile (\<lambda>e. T \<le> time e) es")
         (simp_all add: not_less del: dropWhile_eq_Nil_conv)
  qed
qed

lemma events_in_order_Cons:
  "events_in_order ((gid, pse_vector) # events) = map (Pair gid) pse_vector @ events_in_order events"
  by (simp add: events_in_order_def)

lemma dropWhile_map_Pair:
  "dropWhile (\<lambda>(g, x). P x) (map (Pair gid) es) = map (Pair gid) (dropWhile P es)"
  by (induction es) auto

lemma takeWhile_map_Pair:
  "takeWhile (\<lambda>(g, x). P x) (map (Pair gid) es) = map (Pair gid) (takeWhile P es)"
  by (induction es) auto

text \<open>The two loops together, over the pairs of the call in order.\<close>

lemma inject_events_eq:
  "t1 (epoch_m s) = T \<Longrightarrow>
   inject_events s events =
     (case dropWhile (\<lambda>(g, x). T \<le> time x) (events_in_order events) of
        [] \<Rightarrow> Inr (fold (\<lambda>(g, x) s. push_pending s g x) (events_in_order events) s)
      | (g, e) # _ \<Rightarrow>
          Inl (bad_event_time (time e) T,
               fold (\<lambda>(g, x) s. push_pending s g x)
                 (takeWhile (\<lambda>(g, x). T \<le> time x) (events_in_order events)) s))"
proof (induction events arbitrary: s)
  case Nil
  then show ?case by (simp add: events_in_order_def)
next
  case (Cons entry events)
  obtain gid pv where entry: "entry = (gid, pv)"
    by (cases entry)
  show ?case
  proof (cases "dropWhile (\<lambda>e. T \<le> time e) pv")
    case Nil
    then have all: "\<forall>x\<in>set (map (Pair gid) pv). (\<lambda>(g, x). T \<le> time x) x"
      by (auto simp: dropWhile_eq_Nil_conv)
    let ?s = "fold (\<lambda>(g, x) s. push_pending s g x) (map (Pair gid) pv) s"
    have cell: "inject_cell_events s gid pv = Inr ?s"
      using inject_cell_events_eq[OF Cons.prems, of gid pv] Nil by simp
    have "t1 (epoch_m ?s) = T"
      using Cons.prems by (simp add: fold_push_pending_epoch)
    note ih = Cons.IH[OF this]
    show ?thesis
    proof (cases "dropWhile (\<lambda>(g, x). T \<le> time x) (events_in_order events)")
      case Nil
      with ih cell all show ?thesis
        unfolding entry events_in_order_Cons
        by (simp add: dropWhile_append2 takeWhile_append2 del: set_map dropWhile_eq_Nil_conv)
    next
      case (Cons p ps)
      obtain g e where p: "p = (g, e)"
        by (cases p)
      from ih cell all Cons show ?thesis
        unfolding entry events_in_order_Cons p
        by (simp add: dropWhile_append2 takeWhile_append2 del: set_map)
    qed
  next
    case (Cons e rest)
    then have cell: "inject_cell_events s gid pv =
        Inl (bad_event_time (time e) T,
             fold (\<lambda>(g, x) s. push_pending s g x)
               (map (Pair gid) (takeWhile (\<lambda>e. T \<le> time e) pv)) s)"
      using inject_cell_events_eq[OF Cons.prems, of gid pv] by simp
    have drop: "dropWhile (\<lambda>(g, x). T \<le> time x) (map (Pair gid) pv) = (gid, e) # map (Pair gid) rest"
      using Cons by (simp add: dropWhile_map_Pair)
    then have ex: "\<exists>x\<in>set (map (Pair gid) pv). \<not> (\<lambda>(g, x). T \<le> time x) x"
      by (metis (no_types, lifting) dropWhile_eq_Nil_conv list.distinct(1))
    from ex obtain x where x: "x \<in> set (map (Pair gid) pv)" "\<not> (\<lambda>(g, x). T \<le> time x) x"
      by blast
    have "dropWhile (\<lambda>(g, x). T \<le> time x) (map (Pair gid) pv @ events_in_order events) =
        (gid, e) # map (Pair gid) rest @ events_in_order events"
      using dropWhile_append1[where P = "\<lambda>(g, x). T \<le> time x", OF x] drop by simp
    moreover have "takeWhile (\<lambda>(g, x). T \<le> time x) (map (Pair gid) pv @ events_in_order events) =
        map (Pair gid) (takeWhile (\<lambda>e. T \<le> time e) pv)"
      using takeWhile_append1[where P = "\<lambda>(g, x). T \<le> time x", OF x]
      by (simp add: takeWhile_map_Pair)
    ultimately show ?thesis
      unfolding entry events_in_order_Cons using cell by simp
  qed
qed

subsection \<open>Rejection of a past event\<close>

text \<open>
  C1 (amended). The check and the \<^verbatim>\<open>push_back\<close> are made event by event, in one pass.
  For every call \<^verbatim>\<open>inject_events(events)\<close> in which some event has a time before
  \<^verbatim>\<open>current.t1\<close>, the exception is raised at the first such event, with its time and
  \<^verbatim>\<open>current.t1\<close>; the events that precede it in the call and have a local gid have been
  appended to their pending buffers, and nothing else of the state has changed. The pending
  buffers are unchanged when no local event precedes the first past event.
\<close>

theorem inject_events_past_time:
  assumes "\<exists>(g, e)\<in>set (events_in_order events). time e < t1 (epoch_m s)"
  shows "\<exists>pre gid e post.
           events_in_order events = pre @ (gid, e) # post \<and>
           (\<forall>(g, x)\<in>set pre. t1 (epoch_m s) \<le> time x) \<and> time e < t1 (epoch_m s) \<and>
           inject_events s events =
             Inl (bad_event_time (time e) (t1 (epoch_m s)),
                  fold (\<lambda>(g, x) s. push_pending s g x) pre s) \<and>
           ((\<forall>(g, x)\<in>set pre. gid_to_local_m s g = None) \<longrightarrow>
              inject_events s events = Inl (bad_event_time (time e) (t1 (epoch_m s)), s))"
proof -
  let ?ok = "\<lambda>(g, x). t1 (epoch_m s) \<le> time x"
  let ?pre = "takeWhile ?ok (events_in_order events)"
  from assms have "dropWhile ?ok (events_in_order events) \<noteq> []"
    by (fastforce simp: dropWhile_eq_Nil_conv)
  then obtain p post where drop: "dropWhile ?ok (events_in_order events) = p # post"
    by (cases "dropWhile ?ok (events_in_order events)") auto
  obtain gid e where p: "p = (gid, e)"
    by (cases p)
  have bad: "time e < t1 (epoch_m s)"
    using hd_dropWhile[of ?ok "events_in_order events"] drop p by auto
  have split: "events_in_order events = ?pre @ (gid, e) # post"
    using takeWhile_dropWhile_id[of ?ok "events_in_order events"] drop p by simp
  have pre: "\<forall>(g, x)\<in>set ?pre. t1 (epoch_m s) \<le> time x"
    by (auto dest: set_takeWhileD)
  have res: "inject_events s events =
      Inl (bad_event_time (time e) (t1 (epoch_m s)), fold (\<lambda>(g, x) s. push_pending s g x) ?pre s)"
    using inject_events_eq[OF refl, of s events] drop p by simp
  have foreign: "fold (\<lambda>(g, x) s. push_pending s g x) xs s = s"
    if "\<forall>(g, x)\<in>set xs. gid_to_local_m s g = None" for xs
    using that by (induction xs) (auto simp: push_pending_foreign)
  show ?thesis
    using split pre bad res foreign[of ?pre] by (intro exI[of _ ?pre] exI[of _ gid] exI[of _ e] exI[of _ post]) auto
qed

text \<open>
  The theorem on a call with a valid event for the local gid 10 followed by an event
  before the recorded epoch end 5.
\<close>

theorem inject_events_past_time_witness:
  "list_ex (\<lambda>(g, e). time e < t1 (epoch_m example_state_at_5))
     (events_in_order [(10, [\<lparr>target = 0, weight = 1, time = 6\<rparr>,
                             \<lparr>target = 0, weight = 1, time = 4\<rparr>])]) \<and>
   (\<exists>pre gid e post.
      events_in_order [(10, [\<lparr>target = 0, weight = 1, time = 6\<rparr>,
                             \<lparr>target = 0, weight = 1, time = 4\<rparr>])] = pre @ (gid, e) # post \<and>
      list_all (\<lambda>(g, x). t1 (epoch_m example_state_at_5) \<le> time x) pre \<and>
      time e < t1 (epoch_m example_state_at_5) \<and>
      inject_events example_state_at_5
          [(10, [\<lparr>target = 0, weight = 1, time = 6\<rparr>, \<lparr>target = 0, weight = 1, time = 4\<rparr>])] =
        Inl (bad_event_time (time e) (t1 (epoch_m example_state_at_5)),
             fold (\<lambda>(g, x) s. push_pending s g x) pre example_state_at_5))"
proof -
  let ?events = "[(10 :: nat, [\<lparr>target = 0, weight = 1, time = 6\<rparr>, \<lparr>target = 0, weight = 1, time = 4\<rparr>])]"
  have h: "\<exists>(g, e)\<in>set (events_in_order ?events). time e < t1 (epoch_m example_state_at_5)"
    by (simp add: events_in_order_def example_state_at_5_def)
  from inject_events_past_time[OF h] h show ?thesis
    unfolding list_all_iff list_ex_iff by blast
qed

text \<open>
  C1 as stated fails: the valid event at time 6 is in the pending buffer of cell 0 when the
  event at time 4 raises.
\<close>

theorem inject_events_partial_counterexample:
  "inject_events example_state_at_5
     [(10, [\<lparr>target = 0, weight = 1, time = 6\<rparr>, \<lparr>target = 0, weight = 1, time = 4\<rparr>])] =
     Inl (bad_event_time 4 5,
          example_state_at_5\<lparr>pending_events_m := [[\<lparr>target = 0, weight = 1, time = 6\<rparr>], []]\<rparr>) \<and>
   pending_events_m example_state_at_5 = [[], []]"
  by (simp add: example_state_at_5_def example_state_def push_pending_def)

subsection \<open>The time check comes before the lookup of the gid\<close>

lemma fold_push_pending_filter_local:
  "fold (\<lambda>(g, x) s. push_pending s g x) xs s =
   fold (\<lambda>(g, x) s. push_pending s g x) (filter (\<lambda>(g, x). gid_to_local_m s g \<noteq> None) xs) s"
proof (induction xs arbitrary: s)
  case Nil
  then show ?case by simp
next
  case (Cons p xs)
  obtain g x where p: "p = (g, x)"
    by (cases p)
  show ?case
  proof (cases "gid_to_local_m s g")
    case None
    with Cons.IH[of s] show ?thesis
      by (simp add: p push_pending_foreign)
  next
    case (Some lidx)
    with Cons.IH[of "push_pending s g x"] show ?thesis
      by (simp add: p push_pending_gid_to_local)
  qed
qed

text \<open>
  C9. In \<^verbatim>\<open>inject_events\<close> the time of every event is checked before its gid is looked
  up. An event before \<^verbatim>\<open>current.t1\<close> raises the error whatever its gid, local or not.
  When no event is before \<^verbatim>\<open>current.t1\<close> the call returns without error and its effect is
  that of the events with a local gid alone: the events with a foreign gid are dropped, and a
  call with foreign gids only leaves the state as it was.
\<close>

theorem inject_events_check_before_lookup:
  "((gid, pse_vector) \<in> set events \<and> e \<in> set pse_vector \<and> time e < t1 (epoch_m s) \<longrightarrow>
      (\<exists>t s'. inject_events s events = Inl (bad_event_time t (t1 (epoch_m s)), s'))) \<and>
   ((\<forall>(g, x)\<in>set (events_in_order events). t1 (epoch_m s) \<le> time x) \<longrightarrow>
      inject_events s events =
        Inr (fold (\<lambda>(g, x) s. push_pending s g x)
               (filter (\<lambda>(g, x). gid_to_local_m s g \<noteq> None) (events_in_order events)) s)) \<and>
   ((\<forall>(g, x)\<in>set (events_in_order events). gid_to_local_m s g = None \<and> t1 (epoch_m s) \<le> time x) \<longrightarrow>
      inject_events s events = Inr s)"
proof (intro conjI impI)
  assume a: "(gid, pse_vector) \<in> set events \<and> e \<in> set pse_vector \<and> time e < t1 (epoch_m s)"
  then have "(gid, e) \<in> set (events_in_order events)"
    by (force simp: events_in_order_def)
  with a have "dropWhile (\<lambda>(g, x). t1 (epoch_m s) \<le> time x) (events_in_order events) \<noteq> []"
    by (fastforce simp: dropWhile_eq_Nil_conv)
  then obtain p post where
    "dropWhile (\<lambda>(g, x). t1 (epoch_m s) \<le> time x) (events_in_order events) = p # post"
    by (cases "dropWhile (\<lambda>(g, x). t1 (epoch_m s) \<le> time x) (events_in_order events)") auto
  then show "\<exists>t s'. inject_events s events = Inl (bad_event_time t (t1 (epoch_m s)), s')"
    using inject_events_eq[OF refl, of s events] by (cases p) simp
next
  assume "\<forall>(g, x)\<in>set (events_in_order events). t1 (epoch_m s) \<le> time x"
  then have "dropWhile (\<lambda>(g, x). t1 (epoch_m s) \<le> time x) (events_in_order events) = []"
    by (simp add: dropWhile_eq_Nil_conv)
  then have "inject_events s events =
      Inr (fold (\<lambda>(g, x) s. push_pending s g x) (events_in_order events) s)"
    using inject_events_eq[OF refl, of s events] by (simp del: dropWhile_eq_Nil_conv)
  then show "inject_events s events =
      Inr (fold (\<lambda>(g, x) s. push_pending s g x)
             (filter (\<lambda>(g, x). gid_to_local_m s g \<noteq> None) (events_in_order events)) s)"
    using fold_push_pending_filter_local[of "events_in_order events" s] by simp
next
  assume a: "\<forall>(g, x)\<in>set (events_in_order events).
      gid_to_local_m s g = None \<and> t1 (epoch_m s) \<le> time x"
  then have "dropWhile (\<lambda>(g, x). t1 (epoch_m s) \<le> time x) (events_in_order events) = []"
    by (auto simp: dropWhile_eq_Nil_conv)
  then have "inject_events s events =
      Inr (fold (\<lambda>(g, x) s. push_pending s g x) (events_in_order events) s)"
    using inject_events_eq[OF refl, of s events] by (simp del: dropWhile_eq_Nil_conv)
  moreover have "filter (\<lambda>(g, x). gid_to_local_m s g \<noteq> None) (events_in_order events) = []"
    using a by (auto simp: filter_empty_conv)
  ultimately show "inject_events s events = Inr s"
    using fold_push_pending_filter_local[of "events_in_order events" s] by simp
qed

text \<open>
  The theorem on the state with recorded epoch end 5, where gid 99 is not local: an event
  at time 4 for gid 99 raises; events at times 6 and 7 for gids 99 and 10 leave the event
  for gid 10 alone in the pending buffer of cell 0; an event at time 6 for gid 99 changes
  nothing.
\<close>

theorem inject_events_check_before_lookup_witness:
  "gid_to_local_m example_state_at_5 99 = None \<and>
   inject_events example_state_at_5 [(99, [\<lparr>target = 0, weight = 1, time = 4\<rparr>])] =
     Inl (bad_event_time 4 5, example_state_at_5) \<and>
   inject_events example_state_at_5
       [(99, [\<lparr>target = 0, weight = 1, time = 6\<rparr>]), (10, [\<lparr>target = 0, weight = 1, time = 7\<rparr>])] =
     Inr (example_state_at_5\<lparr>pending_events_m := [[\<lparr>target = 0, weight = 1, time = 7\<rparr>], []]\<rparr>) \<and>
   inject_events example_state_at_5 [(99, [\<lparr>target = 0, weight = 1, time = 6\<rparr>])] =
     Inr example_state_at_5"
proof -
  let ?s = example_state_at_5
  have t1: "t1 (epoch_m ?s) = 5" and foreign: "gid_to_local_m ?s 99 = None"
    by (simp_all add: example_state_at_5_def example_state_def)
  have "\<exists>t s'. inject_events ?s [(99, [\<lparr>target = 0, weight = 1, time = 4\<rparr>])] =
      Inl (bad_event_time t (t1 (epoch_m ?s)), s')"
    using inject_events_check_before_lookup[of 99 "[\<lparr>target = 0, weight = 1, time = 4\<rparr>]"
        "[(99, [\<lparr>target = 0, weight = 1, time = 4\<rparr>])]" "\<lparr>target = 0, weight = 1, time = 4\<rparr>" ?s]
    by (simp add: t1)
  then have raised: "inject_events ?s [(99, [\<lparr>target = 0, weight = 1, time = 4\<rparr>])] =
      Inl (bad_event_time 4 5, ?s)"
    by (simp add: t1)
  have mixed: "inject_events ?s
       [(99, [\<lparr>target = 0, weight = 1, time = 6\<rparr>]), (10, [\<lparr>target = 0, weight = 1, time = 7\<rparr>])] =
     Inr (?s\<lparr>pending_events_m := [[\<lparr>target = 0, weight = 1, time = 7\<rparr>], []]\<rparr>)"
    using inject_events_check_before_lookup[of _ _
        "[(99, [\<lparr>target = 0, weight = 1, time = 6\<rparr>]), (10, [\<lparr>target = 0, weight = 1, time = 7\<rparr>])]"
        _ ?s]
    by (simp add: events_in_order_def example_state_at_5_def example_state_def push_pending_def)
  have dropped: "inject_events ?s [(99, [\<lparr>target = 0, weight = 1, time = 6\<rparr>])] = Inr ?s"
    using inject_events_check_before_lookup[of _ _ "[(99, [\<lparr>target = 0, weight = 1, time = 6\<rparr>])]"
        _ ?s]
    by (simp add: events_in_order_def t1 foreign)
  show ?thesis
    using foreign raised mixed dropped by simp
qed

section \<open>Properties of reset and run\<close>

subsection \<open>Reset\<close>

text \<open>
  C8. After \<^verbatim>\<open>reset()\<close> the epoch clock is zero (id, t0 and t1), every cell group has
  been reset, every lane of both lane buffers is empty, every event generator has been
  reset, every pending buffer is empty, the communicator has been reset and both local
  spike stores are empty. The number of lanes, of pending buffers, of groups and of
  generators is as before, and so are the epoch interval and the gid table.
\<close>

theorem reset_postcondition:
  "epoch_m (reset C s) = \<lparr>id_e = 0, t0 = 0, t1 = 0\<rparr> \<and>
   cell_groups_m (reset C s) = map (group_reset C) (cell_groups_m s) \<and>
   event_lanes_m (reset C s) =
     (replicate (length (fst (event_lanes_m s))) [], replicate (length (snd (event_lanes_m s))) []) \<and>
   event_generators_m (reset C s) = map (map (generator_reset C)) (event_generators_m s) \<and>
   pending_events_m (reset C s) = replicate (length (pending_events_m s)) [] \<and>
   communicator_m (reset C s) = communicator_reset C (communicator_m s) \<and>
   local_spikes_m (reset C s) = ([], []) \<and>
   t_interval_m (reset C s) = t_interval_m s \<and>
   gid_to_local_m (reset C s) = gid_to_local_m s"
  by (simp add: reset_def epoch_reset_def epoch_init_def map_replicate_const)

subsection \<open>A call that asks for a time already reached\<close>

text \<open>
  C4. For every state, every \<open>t\<close> not after the recorded epoch end \<^verbatim>\<open>current.t1\<close> and
  every positive \<^verbatim>\<open>dt\<close>, \<^verbatim>\<open>run(t, dt)\<close> returns \<^verbatim>\<open>current.t1\<close> and the state is the
  one before the call: epoch, lanes, pending buffers, spike stores, cell groups and all
  the rest. This holds for the public \<^verbatim>\<open>simulation::run\<close> and for the implementation it
  forwards to.
\<close>

theorem run_reached_time_is_noop:
  assumes "t \<le> t1 (epoch_m s)" and "0 < dt"
  shows "simulation_run C s t dt = Some (Inr (t1 (epoch_m s), s)) \<and>
         run C s t dt = Some (t1 (epoch_m s), s)"
  using assms by (simp add: simulation_run_def run_def)

theorem run_reached_time_is_noop_witness:
  "(3 :: time_type) \<le> t1 (epoch_m example_state_at_5) \<and> (0 :: time_type) < 1 / 40 \<and>
   simulation_run example_collaborators example_state_at_5 3 (1 / 40) =
     Some (Inr (5, example_state_at_5)) \<and>
   run example_collaborators example_state_at_5 3 (1 / 40) = Some (5, example_state_at_5)"
proof -
  have h1: "(3 :: time_type) \<le> t1 (epoch_m example_state_at_5)"
    by (simp add: example_state_at_5_def)
  have h2: "(0 :: time_type) < 1 / 40"
    by simp
  have "t1 (epoch_m example_state_at_5) = 5"
    by (simp add: example_state_at_5_def)
  with run_reached_time_is_noop[OF h1 h2, of example_collaborators] h1 show ?thesis
    by simp
qed

subsection \<open>The error of the public run\<close>

text \<open>
  C7. For every \<^verbatim>\<open>tfinal\<close> and every \<^verbatim>\<open>dt \<le> 0\<close>, \<^verbatim>\<open>simulation::run(tfinal, dt)\<close> raises
  the domain error, and it raises an error in no other case: for a positive \<^verbatim>\<open>dt\<close> the
  call is the implementation's \<^verbatim>\<open>run\<close>, which has no \<^verbatim>\<open>throw\<close> of its own.
\<close>

theorem simulation_run_error_iff:
  "(dt \<le> 0 \<longrightarrow>
      simulation_run C s tfinal dt = Some (Inl (domain_error ''Finite time-step must be supplied.''))) \<and>
   (simulation_run C s tfinal dt = Some (Inl err) \<longrightarrow>
      dt \<le> 0 \<and> err = domain_error ''Finite time-step must be supplied.'')"
proof (cases "dt \<le> 0")
  case True
  then show ?thesis by (simp add: simulation_run_def)
next
  case False
  then show ?thesis by (cases "run C s tfinal dt") (simp_all add: simulation_run_def)
qed

theorem simulation_run_error_iff_witness:
  "(0 :: time_type) \<le> 0 \<and>
   simulation_run example_collaborators example_state 10 0 =
     Some (Inl (domain_error ''Finite time-step must be supplied.'')) \<and>
   simulation_run example_collaborators example_state 10 (- 1) =
     Some (Inl (domain_error ''Finite time-step must be supplied.'')) \<and>
   \<not> (1 / 40 :: time_type) \<le> 0 \<and>
   simulation_run example_collaborators example_state_at_5 3 (1 / 40) \<noteq>
     Some (Inl (domain_error ''Finite time-step must be supplied.''))"
proof -
  let ?err = "domain_error ''Finite time-step must be supplied.''"
  note zero = simulation_run_error_iff[of 0 example_collaborators example_state 10 ?err]
  note negative = simulation_run_error_iff[of "- 1" example_collaborators example_state 10 ?err]
  note positive = simulation_run_error_iff[of "1 / 40" example_collaborators example_state_at_5 3 ?err]
  have a: "simulation_run example_collaborators example_state 10 0 = Some (Inl ?err)"
    using zero by simp
  have b: "simulation_run example_collaborators example_state 10 (- 1) = Some (Inl ?err)"
    using negative by simp
  have c: "simulation_run example_collaborators example_state_at_5 3 (1 / 40) \<noteq> Some (Inl ?err)"
    using positive by auto
  show ?thesis
    using a b c by simp
qed

subsection \<open>What the tasks leave alone\<close>

lemma fold_preserves:
  "(\<And>x s. f (g x s) = f s) \<Longrightarrow> f (fold g xs s) = f s"
  by (induction xs arbitrary: s) simp_all

lemma set_local_spikes_fields:
  "t_interval_m (set_local_spikes k v s) = t_interval_m s"
  "event_lanes_m (set_local_spikes k v s) = event_lanes_m s"
  "cell_groups_m (set_local_spikes k v s) = cell_groups_m s"
  by (simp_all add: set_local_spikes_def)

lemma update_group_fields:
  "t_interval_m (update_group C dt current s i) = t_interval_m s"
  "event_lanes_m (update_group C dt current s i) = event_lanes_m s"
  by (simp_all add: update_group_def Let_def set_local_spikes_def)

lemma update_fields:
  "t_interval_m (update C dt current s) = t_interval_m s"
  "event_lanes_m (update C dt current s) = event_lanes_m s"
  unfolding update_def
  by (simp_all add: fold_preserves[where f = t_interval_m] fold_preserves[where f = event_lanes_m]
      update_group_fields set_local_spikes_fields)

lemma exchange_fields:
  "t_interval_m (exchange C prev s) = t_interval_m s"
  "event_lanes_m (exchange C prev s) = event_lanes_m s"
  by (simp_all add: exchange_def Let_def split: prod.splits)

lemma enqueue_cell_t_interval:
  "t_interval_m (enqueue_cell C next s i) = t_interval_m s"
  by (simp add: enqueue_cell_def Let_def set_event_lanes_def split: prod.splits)

lemma enqueue_t_interval: "t_interval_m (enqueue C next s) = t_interval_m s"
  unfolding enqueue_def
  by (simp add: fold_preserves[where f = t_interval_m] enqueue_cell_t_interval)

subsection \<open>The epochs of a run\<close>

lemma next_epoch_fields:
  "t0 (next_epoch tfinal e interval) = t1 e"
  "t1 (next_epoch tfinal e interval) = min (t1 e + interval) tfinal"
  "id_e (next_epoch tfinal e interval) = id_e e + 1"
  by (simp_all add: next_epoch_def advance_to_def)

lemma empty_next_epoch:
  "empty_epoch (next_epoch tfinal e interval) \<longleftrightarrow> t1 e = min (t1 e + interval) tfinal"
  by (simp add: empty_epoch_def next_epoch_fields)

lemma pipeline_step_t_interval:
  "t_interval_m (update C dt cur (enqueue C nxt (exchange C prv s))) = t_interval_m s"
  by (simp add: update_fields enqueue_t_interval exchange_fields)

text \<open>
  With a positive interval the loop breaks after finitely many epochs, with the last epoch
  ending at \<open>tfinal\<close>: \<open>n\<close> bounds the number of intervals left.
\<close>

lemma run_loop_returns_bounded:
  "0 < t_interval_m s \<Longrightarrow> t1 next \<le> tfinal \<Longrightarrow> tfinal - t1 next \<le> real n * t_interval_m s \<Longrightarrow>
   \<exists>prev' current' s'. run_loop C tfinal dt prev current next s = Some (prev', current', s') \<and>
      t1 current' = tfinal \<and> t_interval_m s' = t_interval_m s"
proof (induction n arbitrary: prev current "next" s)
  case 0
  then have "t1 next = tfinal"
    by simp
  with 0 have "empty_epoch (next_epoch tfinal next (t_interval_m s))"
    by (simp add: empty_next_epoch)
  with \<open>t1 next = tfinal\<close> show ?case
    by (subst run_loop.simps) simp
next
  case (Suc n)
  show ?case
  proof (cases "empty_epoch (next_epoch tfinal next (t_interval_m s))")
    case True
    with Suc.prems have "t1 next = tfinal"
      by (auto simp: empty_next_epoch min_def split: if_splits)
    with True show ?thesis
      by (subst run_loop.simps) simp
  next
    case False
    let ?next = "next_epoch tfinal next (t_interval_m s)"
    let ?s = "update C dt next (enqueue C ?next (exchange C current s))"
    have interval: "t_interval_m ?s = t_interval_m s"
      by (rule pipeline_step_t_interval)
    have le: "t1 ?next \<le> tfinal"
      by (simp add: next_epoch_fields)
    have bound: "tfinal - t1 ?next \<le> real n * t_interval_m ?s"
      using Suc.prems unfolding interval
      by (auto simp: next_epoch_fields min_def algebra_simps)
    have pos: "0 < t_interval_m ?s"
      using Suc.prems(1) by (simp only: interval)
    from Suc.IH[OF pos le bound, of current "next"]
    obtain prev' current' s' where
      "run_loop C tfinal dt current next ?next ?s = Some (prev', current', s')"
      "t1 current' = tfinal" "t_interval_m s' = t_interval_m s"
      unfolding interval by blast
    with False show ?thesis
      by (subst run_loop.simps) simp
  qed
qed

lemma run_loop_returns:
  assumes "0 < t_interval_m s" and "t1 next \<le> tfinal"
  shows "\<exists>prev' current' s'. run_loop C tfinal dt prev current next s = Some (prev', current', s') \<and>
      t1 current' = tfinal \<and> t_interval_m s' = t_interval_m s"
proof -
  obtain n where "(tfinal - t1 next) / t_interval_m s \<le> real n"
    using real_arch_simple by blast
  with assms(1) have "tfinal - t1 next \<le> real n * t_interval_m s"
    by (simp add: pos_divide_le_eq)
  with assms show ?thesis
    by (rule run_loop_returns_bounded)
qed

text \<open>With a negative interval no epoch is ever empty, and the loop does not break.\<close>

lemma run_loop_negative:
  fixes C :: "('g, 'gen, 'c) collaborators"
  assumes "t_interval_m s < 0"
  shows "run_loop C tfinal dt prev current next s = None"
proof -
  have "\<not> t_interval_m s < 0" if "run_loop C tfinal dt prev current next s = Some y" for y
  proof (rule run_loop.raw_induct[where P = "\<lambda>C tfinal dt prev current next s y. \<not> t_interval_m s < 0",
        OF _ that])
    fix loop :: "('g, 'gen, 'c) collaborators \<Rightarrow> time_type \<Rightarrow> time_type \<Rightarrow> epoch \<Rightarrow> epoch \<Rightarrow> epoch \<Rightarrow>
        ('g, 'gen, 'c) simulation_state \<Rightarrow> (epoch \<times> epoch \<times> ('g, 'gen, 'c) simulation_state) option"
      and C tfinal dt prev current "next" s y
    assume ih: "\<And>C tfinal dt prev current next s y.
        loop C tfinal dt prev current next s = Some y \<Longrightarrow> \<not> t_interval_m s < 0"
      and step: "(if empty_epoch (next_epoch tfinal next (t_interval_m s))
          then Some (current, next, s)
          else loop C tfinal dt current next (next_epoch tfinal next (t_interval_m s))
                 (update C dt next
                   (enqueue C (next_epoch tfinal next (t_interval_m s)) (exchange C current s)))) =
         Some y"
    show "\<not> t_interval_m s < 0"
    proof (cases "empty_epoch (next_epoch tfinal next (t_interval_m s))")
      case True
      then show ?thesis
        by (auto simp: empty_next_epoch min_def split: if_splits)
    next
      case False
      with step ih[of C tfinal dt current "next" "next_epoch tfinal next (t_interval_m s)"
          "update C dt next (enqueue C (next_epoch tfinal next (t_interval_m s)) (exchange C current s))" y]
      show ?thesis
        by (simp add: pipeline_step_t_interval)
    qed
  qed
  with assms show ?thesis
    by (cases "run_loop C tfinal dt prev current next s") auto
qed

text \<open>
  What a call of the implementation's \<^verbatim>\<open>run\<close> returns, by the sign of the interval: the
  time returned, the recorded epoch end and the interval of the state it leaves.
\<close>

lemma run_nonnegative_interval:
  assumes "0 \<le> t_interval_m s"
  shows "\<exists>s'. run C s tfinal dt =
           Some (if tfinal \<le> t1 (epoch_m s) \<or> t_interval_m s = 0 then t1 (epoch_m s) else tfinal, s') \<and>
         t1 (epoch_m s') =
           (if tfinal \<le> t1 (epoch_m s) \<or> t_interval_m s = 0 then t1 (epoch_m s) else tfinal) \<and>
         t_interval_m s' = t_interval_m s"
proof (cases "tfinal \<le> t1 (epoch_m s)")
  case True
  then show ?thesis
    by (simp add: run_def)
next
  case late: False
  let ?I = "t_interval_m s"
  let ?current = "next_epoch tfinal (epoch_m s) ?I"
  let ?next = "next_epoch tfinal ?current ?I"
  show ?thesis
  proof (cases "empty_epoch ?next")
    case True
    have "t1 ?current = (if ?I = 0 then t1 (epoch_m s) else tfinal)"
      using True late assms by (auto simp: empty_next_epoch next_epoch_fields min_def split: if_splits)
    with True late show ?thesis
      by (simp add: run_def Let_def exchange_fields update_fields enqueue_t_interval)
  next
    case False
    let ?s = "update C dt ?current (enqueue C ?next (enqueue C ?current s))"
    have interval: "t_interval_m ?s = ?I"
      by (simp add: update_fields enqueue_t_interval)
    from False late assms have pos: "0 < ?I"
      by (auto simp: empty_next_epoch next_epoch_fields min_def split: if_splits)
    then have pos': "0 < t_interval_m ?s"
      by (simp only: interval)
    have "t1 ?next \<le> tfinal"
      by (simp add: next_epoch_fields)
    from run_loop_returns[OF pos' this, of C dt "epoch_m s" ?current]
    obtain prev' current' s' where loop:
      "run_loop C tfinal dt (epoch_m s) ?current ?next ?s = Some (prev', current', s')"
      "t1 current' = tfinal" "t_interval_m s' = ?I"
      unfolding interval by blast
    with False late pos show ?thesis
      by (simp add: run_def Let_def exchange_fields update_fields enqueue_t_interval)
  qed
qed

lemma run_negative_interval:
  assumes "t_interval_m s < 0"
  shows "run C s tfinal dt = (if tfinal \<le> t1 (epoch_m s) then Some (t1 (epoch_m s), s) else None)"
proof (cases "tfinal \<le> t1 (epoch_m s)")
  case True
  then show ?thesis
    by (simp add: run_def)
next
  case late: False
  let ?I = "t_interval_m s"
  let ?current = "next_epoch tfinal (epoch_m s) ?I"
  let ?next = "next_epoch tfinal ?current ?I"
  let ?s = "update C dt ?current (enqueue C ?next (enqueue C ?current s))"
  have nonempty: "\<not> empty_epoch ?next"
    using assms late by (auto simp: empty_next_epoch next_epoch_fields min_def split: if_splits)
  have "t_interval_m ?s < 0"
    using assms by (simp add: update_fields enqueue_t_interval)
  then have "run_loop C tfinal dt (epoch_m s) ?current ?next ?s = None"
    by (rule run_loop_negative)
  with nonempty late show ?thesis
    by (simp add: run_def Let_def)
qed

lemma run_result:
  assumes "run C s tfinal dt = Some (t, s')"
  shows "t1 (epoch_m s) \<le> t \<and> t \<le> max tfinal (t1 (epoch_m s)) \<and>
         t1 (epoch_m s') = t \<and> t_interval_m s' = t_interval_m s"
proof (cases "0 \<le> t_interval_m s")
  case True
  from run_nonnegative_interval[OF True, of C tfinal dt] assms show ?thesis
    by (auto split: if_splits)
next
  case False
  then have "t_interval_m s < 0"
    by simp
  from run_negative_interval[OF this, of C tfinal dt] assms show ?thesis
    by (auto split: if_splits)
qed

subsection \<open>Times returned by successive calls\<close>

lemma run_calls_returned:
  "run_calls C s calls = Some (ts, s') \<Longrightarrow>
   length ts = length calls \<and> sorted (t1 (epoch_m s) # ts) \<and>
   (\<forall>i<length calls. ts ! i \<le> max (fst (calls ! i)) ((t1 (epoch_m s) # ts) ! i))"
proof (induction calls arbitrary: s ts)
  case Nil
  then show ?case by simp
next
  case (Cons call calls)
  obtain tfinal dt where call: "call = (tfinal, dt)"
    by (cases call)
  from Cons.prems obtain t s1 ts' where
    first: "simulation_run C s tfinal dt = Some (Inr (t, s1))"
    and rest: "run_calls C s1 calls = Some (ts', s')" and ts: "ts = t # ts'"
    unfolding call by (auto split: option.splits sum.splits)
  from first have "run C s tfinal dt = Some (t, s1)"
    by (auto simp: simulation_run_def split: if_splits)
  from run_result[OF this] have t: "t1 (epoch_m s) \<le> t" "t \<le> max tfinal (t1 (epoch_m s))"
    "t1 (epoch_m s1) = t"
    by simp_all
  from Cons.IH[OF rest] have ih: "length ts' = length calls" "sorted (t # ts')"
    "\<forall>i<length calls. ts' ! i \<le> max (fst (calls ! i)) ((t # ts') ! i)"
    unfolding t(3) by simp_all
  have "(t # ts') ! i \<le> max (fst (((tfinal, dt) # calls) ! i)) ((t1 (epoch_m s) # t # ts') ! i)"
    if "i < Suc (length calls)" for i
    using that t(2) ih(3) by (cases i) simp_all
  with t(1) ih(1,2) show ?case
    unfolding ts call by auto
qed

lemma run_calls_return:
  "\<forall>(tfinal, dt)\<in>set calls. 0 < dt \<Longrightarrow> 0 \<le> t_interval_m s \<Longrightarrow>
   \<exists>ts s'. run_calls C s calls = Some (ts, s')"
proof (induction calls arbitrary: s)
  case Nil
  then show ?case by simp
next
  case (Cons call calls)
  obtain tfinal dt where call: "call = (tfinal, dt)"
    by (cases call)
  with Cons.prems(1) have dt: "0 < dt"
    by simp
  from run_nonnegative_interval[OF Cons.prems(2), of C tfinal dt]
  obtain t s1 where first: "run C s tfinal dt = Some (t, s1)" and "t_interval_m s1 = t_interval_m s"
    by blast
  with Cons.prems have "\<exists>ts s'. run_calls C s1 calls = Some (ts, s')"
    by (intro Cons.IH) simp_all
  with first dt show ?case
    unfolding call by (auto simp: simulation_run_def)
qed

text \<open>
  C5 (amended). A call of \<^verbatim>\<open>run\<close> whose \<^verbatim>\<open>tfinal\<close> is not after the time already
  reached returns that time, which may exceed \<^verbatim>\<open>tfinal\<close>. For every sequence of
  successive calls \<^verbatim>\<open>run(tfinal, dt)\<close> with positive \<^verbatim>\<open>dt\<close>: the times returned never
  decrease from one call to the next, starting from the epoch end recorded before the
  first call, and the time a call returns never exceeds the larger of its \<^verbatim>\<open>tfinal\<close> and
  the time reached before it (the time returned by the call before, or the recorded epoch
  end for the first call). When the epoch interval is not negative every call returns.
\<close>

theorem run_calls_monotone:
  assumes "\<forall>(tfinal, dt)\<in>set calls. 0 < dt"
  shows "(\<forall>ts s'. run_calls C s calls = Some (ts, s') \<longrightarrow>
            length ts = length calls \<and> sorted (t1 (epoch_m s) # ts) \<and>
            (\<forall>i<length calls. ts ! i \<le> max (fst (calls ! i)) ((t1 (epoch_m s) # ts) ! i))) \<and>
         (0 \<le> t_interval_m s \<longrightarrow> (\<exists>ts s'. run_calls C s calls = Some (ts, s')))"
  using run_calls_returned[of C s calls] run_calls_return[OF assms, of s C] by blast

text \<open>
  The theorem on three calls, to times 3, 2 and 7/2, from the state the constructor
  leaves: the calls return, and the times they return are sorted and bounded as stated.
\<close>

theorem run_calls_monotone_witness:
  "list_all (\<lambda>(tfinal, dt). 0 < dt) [(3 :: time_type, 1 / 40 :: time_type), (2, 1 / 40), (7 / 2, 1 / 40)] \<and>
   0 \<le> t_interval_m example_state \<and>
   (\<exists>t1' t2' t3' s'.
      run_calls example_collaborators example_state [(3, 1 / 40), (2, 1 / 40), (7 / 2, 1 / 40)] =
        Some ([t1', t2', t3'], s') \<and>
      0 \<le> t1' \<and> t1' \<le> t2' \<and> t2' \<le> t3' \<and>
      t1' \<le> max 3 0 \<and> t2' \<le> max 2 t1' \<and> t3' \<le> max (7 / 2) t2')"
proof -
  let ?calls = "[(3 :: time_type, 1 / 40 :: time_type), (2, 1 / 40), (7 / 2, 1 / 40)]"
  have h1: "\<forall>(tfinal, dt)\<in>set ?calls. 0 < dt"
    by simp
  have h2: "0 \<le> t_interval_m example_state" and start: "t1 (epoch_m example_state) = 0"
    by (simp_all add: example_state_def epoch_init_def)
  note inst = run_calls_monotone[OF h1, of example_collaborators example_state]
  from inst h2 obtain ts s' where
    calls: "run_calls example_collaborators example_state ?calls = Some (ts, s')"
    by blast
  with inst have len: "length ts = 3" and sorted: "sorted (0 # ts)"
    and bound: "\<forall>i<3. ts ! i \<le> max (fst (?calls ! i)) ((0 # ts) ! i)"
    unfolding start by auto
  from len obtain t1' t2' t3' where ts: "ts = [t1', t2', t3']"
    by (auto simp: length_Suc_conv numeral_3_eq_3)
  from bound have "t1' \<le> max 3 0" "t2' \<le> max 2 t1'" "t3' \<le> max (7 / 2) t2'"
    unfolding ts by (auto simp: numeral_3_eq_3 less_Suc_eq)
  with sorted calls h1 h2 show ?thesis
    unfolding ts list_all_iff by auto
qed

text \<open>
  C5 as stated fails on its second part: from the state the constructor leaves, a call to
  time 1 returns 1, and the next call, to time 1/2, returns 1 again, which exceeds its
  \<^verbatim>\<open>tfinal\<close>.
\<close>

theorem run_calls_exceeds_tfinal_counterexample:
  "run_calls example_collaborators example_state [(1, 1 / 40), (1 / 2, 1 / 40)] =
     Some ([1, 1],
           example_state\<lparr>epoch_m := \<lparr>id_e = 1, t0 = 0, t1 = 1\<rparr>,
             event_lanes_m := ([[], []], [[\<lparr>target = 0, weight = 1, time = 0\<rparr>], []])\<rparr>) \<and>
   \<not> (1 :: time_type) \<le> 1 / 2"
  by (simp add: simulation_run_def run_def example_state_def epoch_init_def next_epoch_def
      advance_to_def empty_epoch_def enqueue_def enqueue_cell_def update_def update_group_def
      exchange_def example_collaborators_def Let_def merge_cell_events_def split_sorted_range_def
      tick_generator_def tree_merge_events_def event_lanes_def set_event_lanes_def
      local_spikes_def set_local_spikes_def subrange_view_def event_time_less_def
      upt_rec[of 0] upt_rec[of 1] upt_rec[of 2] numeral_2_eq_2)

subsection \<open>The order of the lanes\<close>

lemma time_sorted_sort_key: "time_sorted (sort_key pse_key xs)"
proof -
  have "sorted (map pse_key (sort_key pse_key xs))"
    by (rule sorted_sort_key)
  then have "sorted_wrt (\<lambda>a b. pse_key a \<le> pse_key b) (sort_key pse_key xs)"
    by (simp add: sorted_map)
  then have "sorted_wrt (\<lambda>a b. time a \<le> time b) (sort_key pse_key xs)"
    by (rule sorted_wrt_mono_rel[rotated]) (auto simp: pse_key_def less_eq_prod_def)
  then show ?thesis
    by (simp add: time_sorted_def sorted_map)
qed

lemma previous_parity: "(k - 1) AND 1 = 0 \<longleftrightarrow> k AND 1 \<noteq> 0" for k :: int
  by (simp add: and_one_eq) presburger

lemma list_all_update:
  "list_all P xs \<Longrightarrow> (i < length xs \<Longrightarrow> P x) \<Longrightarrow> list_all P (xs[i := x])"
proof (cases "i < length xs")
  case True
  assume "list_all P xs" and "i < length xs \<Longrightarrow> P x"
  with True show ?thesis
    by (auto simp: list_all_iff dest: set_update_subset_insert[THEN subsetD])
next
  case False
  assume "list_all P xs"
  with False show ?thesis
    by (simp add: not_less list_update_beyond)
qed

lemma enqueue_cell_lanes_sorted:
  assumes contract: "\<forall>a b g. time_sorted (fst (generator_events C a b g)) \<and>
      (\<forall>e\<in>set (fst (generator_events C a b g)). time e < b)"
    and sorted: "lanes_sorted s"
  shows "lanes_sorted (enqueue_cell C next s i)"
proof -
  let ?k = "id_e next"
  let ?pending = "sort_key pse_key (pending_events_m s ! i)"
  let ?s = "s\<lparr>pending_events_m := (pending_events_m s)[i := ?pending]\<rparr>"
  let ?old = "event_lanes (?k - 1) ?s ! i"
  let ?new = "snd (merge_cell_events (generator_events C) (t0 next) (t1 next) ?old ?pending
      (event_generators_m ?s ! i) (event_lanes ?k ?s ! i))"
  have lanes: "event_lanes_m (enqueue_cell C next s i) =
      (if ?k AND 1 = 0 then ((fst (event_lanes_m s))[i := ?new], snd (event_lanes_m s))
       else (fst (event_lanes_m s), (snd (event_lanes_m s))[i := ?new]))"
    by (simp add: enqueue_cell_def Let_def set_event_lanes_def event_lanes_def split: prod.splits)
  have new: "time_sorted ?new" if "i < length (fst (event_lanes_m s))"
  proof -
    from that sorted have "time_sorted ?old"
      by (auto simp: lanes_sorted_def event_lanes_def list_all_length)
    then show ?thesis
      using contract by (intro time_sorted_merge_cell_events time_sorted_sort_key) auto
  qed
  from sorted have len: "length (fst (event_lanes_m s)) = length (snd (event_lanes_m s))"
    by (simp add: lanes_sorted_def)
  show ?thesis
    unfolding lanes_sorted_def lanes
    using sorted new len by (auto simp: lanes_sorted_def intro!: list_all_update)
qed

lemma enqueue_lanes_sorted:
  assumes "\<forall>a b g. time_sorted (fst (generator_events C a b g)) \<and>
      (\<forall>e\<in>set (fst (generator_events C a b g)). time e < b)"
    and "lanes_sorted s"
  shows "lanes_sorted (enqueue C next s)"
proof -
  have "lanes_sorted (fold (\<lambda>i s. enqueue_cell C next s i) cells s)" for cells
    using assms(2) by (induction cells arbitrary: s) (simp_all add: enqueue_cell_lanes_sorted[OF assms(1)])
  then show ?thesis
    by (simp add: enqueue_def)
qed

lemma update_lanes_sorted: "lanes_sorted (update C dt current s) = lanes_sorted s"
  by (simp add: lanes_sorted_def update_fields)

lemma exchange_lanes_sorted: "lanes_sorted (exchange C prev s) = lanes_sorted s"
  by (simp add: lanes_sorted_def exchange_fields)

lemma epoch_update_lanes_sorted: "lanes_sorted (s\<lparr>epoch_m := e\<rparr>) = lanes_sorted s"
  by (simp add: lanes_sorted_def)

lemma run_loop_lanes_sorted:
  fixes C :: "('g, 'gen, 'c) collaborators"
  assumes contract: "\<forall>a b g. time_sorted (fst (generator_events C a b g)) \<and>
      (\<forall>e\<in>set (fst (generator_events C a b g)). time e < b)"
    and sorted: "lanes_sorted s"
    and loop: "run_loop C tfinal dt prev current next s = Some (prev', current', s')"
  shows "lanes_sorted s'"
proof -
  let ?contract = "\<lambda>C :: ('g, 'gen, 'c) collaborators.
      \<forall>a b g. time_sorted (fst (generator_events C a b g)) \<and>
        (\<forall>e\<in>set (fst (generator_events C a b g)). time e < b)"
  have "?contract C \<and> lanes_sorted s \<longrightarrow> lanes_sorted (snd (snd (prev', current', s')))"
  proof (rule run_loop.raw_induct[where P = "\<lambda>C tfinal dt prev current next s y.
        ?contract C \<and> lanes_sorted s \<longrightarrow> lanes_sorted (snd (snd y))", OF _ loop])
    fix loop :: "('g, 'gen, 'c) collaborators \<Rightarrow> time_type \<Rightarrow> time_type \<Rightarrow> epoch \<Rightarrow> epoch \<Rightarrow> epoch \<Rightarrow>
        ('g, 'gen, 'c) simulation_state \<Rightarrow> (epoch \<times> epoch \<times> ('g, 'gen, 'c) simulation_state) option"
      and C tfinal dt prev current "next" s y
    assume ih: "\<And>C tfinal dt prev current next s y.
        loop C tfinal dt prev current next s = Some y \<Longrightarrow>
        ?contract C \<and> lanes_sorted s \<longrightarrow> lanes_sorted (snd (snd y))"
      and step: "(if empty_epoch (next_epoch tfinal next (t_interval_m s))
          then Some (current, next, s)
          else loop C tfinal dt current next (next_epoch tfinal next (t_interval_m s))
                 (update C dt next
                   (enqueue C (next_epoch tfinal next (t_interval_m s)) (exchange C current s)))) =
         Some y"
    show "?contract C \<and> lanes_sorted s \<longrightarrow> lanes_sorted (snd (snd y))"
    proof (cases "empty_epoch (next_epoch tfinal next (t_interval_m s))")
      case True
      with step show ?thesis
        by auto
    next
      case False
      let ?s = "update C dt next
          (enqueue C (next_epoch tfinal next (t_interval_m s)) (exchange C current s))"
      from False step
      have "loop C tfinal dt current next (next_epoch tfinal next (t_interval_m s)) ?s = Some y"
        by simp
      from ih[OF this] show ?thesis
        by (simp add: update_lanes_sorted enqueue_lanes_sorted exchange_lanes_sorted)
    qed
  qed
  with contract sorted show ?thesis
    by simp
qed

lemma run_lanes_sorted:
  assumes contract: "\<forall>a b g. time_sorted (fst (generator_events C a b g)) \<and>
      (\<forall>e\<in>set (fst (generator_events C a b g)). time e < b)"
    and sorted: "lanes_sorted s"
    and run: "run C s tfinal dt = Some (t, s')"
  shows "lanes_sorted s'"
proof (cases "tfinal \<le> t1 (epoch_m s)")
  case True
  with run sorted show ?thesis
    by (simp add: run_def)
next
  case late: False
  let ?current = "next_epoch tfinal (epoch_m s) (t_interval_m s)"
  let ?next = "next_epoch tfinal ?current (t_interval_m s)"
  note step = update_lanes_sorted exchange_lanes_sorted epoch_update_lanes_sorted
    enqueue_lanes_sorted[OF contract]
  show ?thesis
  proof (cases "empty_epoch ?next")
    case True
    with run late have "s' = (exchange C ?current (update C dt ?current (enqueue C ?current s)))
        \<lparr>epoch_m := ?current\<rparr>"
      by (simp add: run_def Let_def)
    with sorted show ?thesis
      by (simp add: step)
  next
    case False
    let ?s = "update C dt ?current (enqueue C ?next (enqueue C ?current s))"
    from run late False obtain prev' current' s'' where
      loop: "run_loop C tfinal dt (epoch_m s) ?current ?next ?s = Some (prev', current', s'')"
      and s': "s' = (exchange C current' (update C dt current' (exchange C prev' s'')))
          \<lparr>epoch_m := current'\<rparr>"
      by (auto simp: run_def Let_def split: option.splits)
    have "lanes_sorted ?s"
      using sorted by (simp add: step)
    from run_loop_lanes_sorted[OF contract this loop] show ?thesis
      unfolding s' by (simp add: step)
  qed
qed

lemma inject_events_lanes:
  assumes "inject_events s events = Inr s'"
  shows "event_lanes_m s' = event_lanes_m s"
proof (cases "dropWhile (\<lambda>(g, x). t1 (epoch_m s) \<le> time x) (events_in_order events)")
  case Nil
  with inject_events_eq[OF refl, of s events] assms show ?thesis
    by (auto simp: fold_push_pending_lanes simp del: dropWhile_eq_Nil_conv)
next
  case (Cons p ps)
  with inject_events_eq[OF refl, of s events] assms show ?thesis
    by (cases p) simp
qed

lemma reset_lanes_sorted:
  "length (fst (event_lanes_m s)) = length (snd (event_lanes_m s)) \<Longrightarrow> lanes_sorted (reset C s)"
  by (simp add: lanes_sorted_def reset_def list_all_iff time_sorted_def)

lemma reset_pending_sorted: "pending_sorted (reset C s)"
  by (simp add: pending_sorted_def reset_def list_all_iff time_sorted_def)

subsection \<open>The pending buffers\<close>

lemma push_pending_length:
  "length (pending_events_m (push_pending s g x)) = length (pending_events_m s)"
  by (simp add: push_pending_def split: option.splits)

lemma push_pending_nth:
  "i < length (pending_events_m s) \<Longrightarrow>
   pending_events_m (push_pending s g x) ! i =
     pending_events_m s ! i @
     (if map_option cell_index (gid_to_local_m s g) = Some i then [x] else [])"
  by (auto simp: push_pending_def nth_list_update split: option.splits)

text \<open>
  Pushing the pairs of a call appends to buffer \<open>i\<close> the events whose gid is local
  with cell index \<open>i\<close>, in the order of the call.
\<close>

lemma fold_push_pending_nth:
  "i < length (pending_events_m s) \<Longrightarrow>
   pending_events_m (fold (\<lambda>(g, x) s. push_pending s g x) xs s) ! i =
     pending_events_m s ! i @
     map snd (filter (\<lambda>(g, x). map_option cell_index (gid_to_local_m s g) = Some i) xs)"
proof (induction xs arbitrary: s)
  case Nil
  then show ?case by simp
next
  case (Cons p xs)
  obtain g x where p: "p = (g, x)"
    by (cases p)
  have "i < length (pending_events_m (push_pending s g x))"
    using Cons.prems by (simp add: push_pending_length)
  from Cons.IH[OF this] Cons.prems show ?case
    by (simp add: p push_pending_nth push_pending_gid_to_local)
qed

lemma inject_events_pending:
  assumes "inject_events s events = Inr s'" and "i < length (pending_events_m s)"
  shows "pending_events_m s' ! i =
     pending_events_m s ! i @
     map snd (filter (\<lambda>(g, x). map_option cell_index (gid_to_local_m s g) = Some i)
       (events_in_order events))"
proof (cases "dropWhile (\<lambda>(g, x). t1 (epoch_m s) \<le> time x) (events_in_order events)")
  case Nil
  with inject_events_eq[OF refl, of s events] assms(1)
  have "s' = fold (\<lambda>(g, x) s. push_pending s g x) (events_in_order events) s"
    by (simp del: dropWhile_eq_Nil_conv)
  with assms(2) show ?thesis
    by (simp add: fold_push_pending_nth)
next
  case (Cons p ps)
  with inject_events_eq[OF refl, of s events] assms(1) show ?thesis
    by (cases p) simp
qed

text \<open>
  One cell of \<^verbatim>\<open>enqueue\<close>: the pending buffer is emptied, and the lane is the merger's
  output on the sorted buffer.
\<close>

lemma enqueue_cell_pending:
  "pending_events_m (enqueue_cell C next s i) = (pending_events_m s)[i := []]"
  by (simp add: enqueue_cell_def Let_def set_event_lanes_def split: prod.splits)

lemma enqueue_cell_lane:
  "event_lanes (id_e next) (enqueue_cell C next s i) =
     (event_lanes (id_e next) s)
       [i := snd (merge_cell_events (generator_events C) (t0 next) (t1 next)
                    (event_lanes (id_e next - 1) s ! i) (sort_key pse_key (pending_events_m s ! i))
                    (event_generators_m s ! i) (event_lanes (id_e next) s ! i))]"
  by (simp add: enqueue_cell_def Let_def set_event_lanes_def event_lanes_def split: prod.splits)

lemma fold_clear_nth:
  "i < length p \<Longrightarrow>
   fold (\<lambda>j p. p[j := []]) cells p ! i = (if i \<in> set cells then [] else p ! i)"
  by (induction cells arbitrary: p) (auto simp: nth_list_update)

lemma fold_enqueue_cell_pending:
  "pending_events_m (fold (\<lambda>i s. enqueue_cell C next s i) cells s) =
     fold (\<lambda>j p. p[j := []]) cells (pending_events_m s)"
  by (induction cells arbitrary: s) (simp_all add: enqueue_cell_pending)

lemma enqueue_pending:
  assumes "i < num_local_cells C (communicator_m s)" and "i < length (pending_events_m s)"
  shows "pending_events_m (enqueue C next s) ! i = []"
  using assms by (simp add: enqueue_def fold_enqueue_cell_pending fold_clear_nth)

text \<open>
  C6 (amended). Only the event lanes are kept in time order. When every event lane is
  time-sorted before a call, and every generator returns time-sorted events before the end
  of the interval it is asked for, every event lane is time-sorted when \<^verbatim>\<open>reset\<close>,
  \<^verbatim>\<open>inject_events\<close> or \<^verbatim>\<open>run\<close> returns without error, whatever the order of the events
  in the pending buffers. The pending buffers are not kept in time order. After
  \<^verbatim>\<open>reset\<close> every pending buffer is empty. A call of \<^verbatim>\<open>inject_events\<close> that returns
  without error leaves in each pending buffer its earlier contents followed by the events
  of the call for that cell, in the order of the call. \<^verbatim>\<open>enqueue\<close> for one cell sorts the
  pending buffer of the cell, writes to the lane of the cell the merger's output on the
  sorted buffer, the lane of the epoch before and the generators of the cell, and leaves the
  pending buffer of the cell empty; after \<^verbatim>\<open>enqueue\<close> the lanes are time-sorted and the
  pending buffer of every local cell is empty.
\<close>

theorem lanes_stay_sorted:
  assumes "\<forall>a b g. time_sorted (fst (generator_events C a b g)) \<and>
      (\<forall>e\<in>set (fst (generator_events C a b g)). time e < b)"
    and "lanes_sorted s"
  shows "lanes_sorted (reset C s) \<and> pending_sorted (reset C s) \<and>
         pending_events_m (reset C s) = replicate (length (pending_events_m s)) [] \<and>
         (\<forall>events s'. inject_events s events = Inr s' \<longrightarrow>
            lanes_sorted s' \<and>
            (\<forall>i<length (pending_events_m s).
               pending_events_m s' ! i =
                 pending_events_m s ! i @
                 map snd (filter (\<lambda>(g, x). map_option cell_index (gid_to_local_m s g) = Some i)
                   (events_in_order events)))) \<and>
         (\<forall>tfinal dt t s'. simulation_run C s tfinal dt = Some (Inr (t, s')) \<longrightarrow> lanes_sorted s') \<and>
         (\<forall>next i.
            time_sorted (sort_key pse_key (pending_events_m s ! i)) \<and>
            event_lanes (id_e next) (enqueue_cell C next s i) =
              (event_lanes (id_e next) s)
                [i := snd (merge_cell_events (generator_events C) (t0 next) (t1 next)
                             (event_lanes (id_e next - 1) s ! i)
                             (sort_key pse_key (pending_events_m s ! i))
                             (event_generators_m s ! i) (event_lanes (id_e next) s ! i))] \<and>
            pending_events_m (enqueue_cell C next s i) = (pending_events_m s)[i := []] \<and>
            lanes_sorted (enqueue_cell C next s i)) \<and>
         (\<forall>next. lanes_sorted (enqueue C next s) \<and>
            (\<forall>i. i < num_local_cells C (communicator_m s) \<and> i < length (pending_events_m s) \<longrightarrow>
               pending_events_m (enqueue C next s) ! i = []))"
proof (intro conjI allI impI)
  from assms(2) have "length (fst (event_lanes_m s)) = length (snd (event_lanes_m s))"
    by (simp add: lanes_sorted_def)
  then show "lanes_sorted (reset C s)"
    by (rule reset_lanes_sorted)
  show "pending_sorted (reset C s)"
    by (rule reset_pending_sorted)
  show "pending_events_m (reset C s) = replicate (length (pending_events_m s)) []"
    by (simp add: reset_def map_replicate_const)
next
  fix events s'
  assume "inject_events s events = Inr s'"
  from inject_events_lanes[OF this] assms(2) show "lanes_sorted s'"
    by (simp add: lanes_sorted_def)
next
  fix events s' i
  assume "inject_events s events = Inr s'" and "i < length (pending_events_m s)"
  then show "pending_events_m s' ! i =
      pending_events_m s ! i @
      map snd (filter (\<lambda>(g, x). map_option cell_index (gid_to_local_m s g) = Some i)
        (events_in_order events))"
    by (rule inject_events_pending)
next
  fix tfinal dt t s'
  assume "simulation_run C s tfinal dt = Some (Inr (t, s'))"
  then have "run C s tfinal dt = Some (t, s')"
    by (auto simp: simulation_run_def split: if_splits)
  then show "lanes_sorted s'"
    by (rule run_lanes_sorted[OF assms])
next
  fix "next" i
  show "time_sorted (sort_key pse_key (pending_events_m s ! i))"
    by (rule time_sorted_sort_key)
  show "event_lanes (id_e next) (enqueue_cell C next s i) =
      (event_lanes (id_e next) s)
        [i := snd (merge_cell_events (generator_events C) (t0 next) (t1 next)
                     (event_lanes (id_e next - 1) s ! i)
                     (sort_key pse_key (pending_events_m s ! i))
                     (event_generators_m s ! i) (event_lanes (id_e next) s ! i))]"
    by (rule enqueue_cell_lane)
  show "pending_events_m (enqueue_cell C next s i) = (pending_events_m s)[i := []]"
    by (rule enqueue_cell_pending)
  show "lanes_sorted (enqueue_cell C next s i)"
    by (rule enqueue_cell_lanes_sorted[OF assms])
next
  fix "next"
  show "lanes_sorted (enqueue C next s)"
    by (rule enqueue_lanes_sorted[OF assms])
next
  fix "next" i
  assume "i < num_local_cells C (communicator_m s) \<and> i < length (pending_events_m s)"
  then show "pending_events_m (enqueue C next s) ! i = []"
    by (simp add: enqueue_pending)
qed

text \<open>
  The theorem on the example rank. The events at times 7 and 6 are injected for gid 10 and
  stay in this order in the pending buffer of cell 0, which is not time-sorted.
  \<^verbatim>\<open>enqueue\<close> for cell 0 and the epoch \<open>[0, 1)\<close> writes the lane with the events at
  times 0, 6 and 7 and empties the buffer. The run to time 1 leaves that lane, and the run
  from there to time 2 starts from a lane of three events and leaves two such lanes; the
  run from there to time 4 goes through the loop.
\<close>

theorem lanes_stay_sorted_witness:
  "(\<forall>a b g. time_sorted (fst (generator_events example_collaborators a b g)) \<and>
      list_all (\<lambda>e. time e < b) (fst (generator_events example_collaborators a b g))) \<and>
   lanes_sorted example_state \<and>
   inject_events example_state
       [(10, [\<lparr>target = 0, weight = 1, time = 7\<rparr>]), (10, [\<lparr>target = 0, weight = 1, time = 6\<rparr>])] =
     Inr example_state_pending \<and>
   pending_events_m example_state_pending ! 0 =
     [\<lparr>target = 0, weight = 1, time = 7\<rparr>, \<lparr>target = 0, weight = 1, time = 6\<rparr>] \<and>
   \<not> pending_sorted example_state_pending \<and>
   lanes_sorted example_state_pending \<and>
   event_lanes 1 (enqueue_cell example_collaborators \<lparr>id_e = 1, t0 = 0, t1 = 1\<rparr>
       example_state_pending 0) =
     [[\<lparr>target = 0, weight = 1, time = 0\<rparr>, \<lparr>target = 0, weight = 1, time = 6\<rparr>,
       \<lparr>target = 0, weight = 1, time = 7\<rparr>], []] \<and>
   pending_events_m (enqueue_cell example_collaborators \<lparr>id_e = 1, t0 = 0, t1 = 1\<rparr>
       example_state_pending 0) = [[], []] \<and>
   simulation_run example_collaborators example_state_pending 1 (1 / 40) =
     Some (Inr (1, example_state_after_1)) \<and>
   lanes_sorted example_state_after_1 \<and>
   simulation_run example_collaborators example_state_after_1 2 (1 / 40) =
     Some (Inr (2, example_state_after_2)) \<and>
   lanes_sorted example_state_after_2 \<and>
   (\<exists>t s'. simulation_run example_collaborators example_state_after_1 4 (1 / 40) =
        Some (Inr (t, s')) \<and> lanes_sorted s')"
proof -
  note pipeline = simulation_run_def run_def example_state_def epoch_init_def next_epoch_def
    advance_to_def empty_epoch_def enqueue_def enqueue_cell_def update_def update_group_def
    exchange_def example_collaborators_def Let_def merge_cell_events_def split_sorted_range_def
    tick_generator_def tree_merge_events_def event_lanes_def set_event_lanes_def
    local_spikes_def set_local_spikes_def subrange_view_def event_time_less_def
    pse_less_def pse_key_def upt_rec[of 0] upt_rec[of 1] upt_rec[of 2] numeral_2_eq_2
  let ?e7 = "\<lparr>target = 0, weight = 1, time = 7\<rparr>"
  let ?e6 = "\<lparr>target = 0, weight = 1, time = 6\<rparr>"
  let ?ep = "\<lparr>id_e = 1, t0 = 0, t1 = 1\<rparr>"
  have h1: "\<forall>a b g. time_sorted (fst (generator_events example_collaborators a b g)) \<and>
      (\<forall>e\<in>set (fst (generator_events example_collaborators a b g)). time e < b)"
    by (simp add: example_collaborators_def tick_generator_def time_sorted_def)
  have h2: "lanes_sorted example_state"
    by (simp add: lanes_sorted_def example_state_def time_sorted_def)
  note start = lanes_stay_sorted[OF h1 h2]
  have injected: "inject_events example_state [(10, [?e7]), (10, [?e6])] = Inr example_state_pending"
    by (simp add: example_state_pending_def example_state_def epoch_init_def push_pending_def)
  from start[THEN conjunct2, THEN conjunct2, THEN conjunct2, THEN conjunct1, rule_format,
      OF injected]
  have h3: "lanes_sorted example_state_pending"
    and order: "\<forall>i<length (pending_events_m example_state).
      pending_events_m example_state_pending ! i =
        pending_events_m example_state ! i @
        map snd (filter (\<lambda>(g, x). map_option cell_index (gid_to_local_m example_state g) = Some i)
          (events_in_order [(10, [?e7]), (10, [?e6])]))"
    by blast+
  from order have pending: "pending_events_m example_state_pending ! 0 = [?e7, ?e6]"
    by (simp add: example_state_def events_in_order_def)
  have unsorted: "\<not> pending_sorted example_state_pending"
    by (simp add: pending_sorted_def example_state_pending_def time_sorted_def)
  note pending_inst = lanes_stay_sorted[OF h1 h3]
  note cell = pending_inst[THEN conjunct2, THEN conjunct2, THEN conjunct2, THEN conjunct2,
      THEN conjunct2, THEN conjunct1, rule_format, of 0 ?ep]
  from cell have lane: "event_lanes 1 (enqueue_cell example_collaborators ?ep example_state_pending 0) =
      [[\<lparr>target = 0, weight = 1, time = 0\<rparr>, ?e6, ?e7], []]"
    by (simp add: example_state_pending_def pipeline)
  from cell have cleared: "pending_events_m (enqueue_cell example_collaborators ?ep
      example_state_pending 0) = [[], []]"
    by (simp add: example_state_pending_def example_state_def)
  have run1: "simulation_run example_collaborators example_state_pending 1 (1 / 40) =
      Some (Inr (1, example_state_after_1))"
    by (simp add: example_state_pending_def example_state_after_1_def pipeline)
  have h4: "lanes_sorted example_state_after_1"
    by (rule pending_inst[THEN conjunct2, THEN conjunct2, THEN conjunct2, THEN conjunct2,
        THEN conjunct1, rule_format, OF run1])
  note after_1 = lanes_stay_sorted[OF h1 h4]
  note after_run = after_1[THEN conjunct2, THEN conjunct2, THEN conjunct2, THEN conjunct2,
      THEN conjunct1, rule_format]
  have run2: "simulation_run example_collaborators example_state_after_1 2 (1 / 40) =
      Some (Inr (2, example_state_after_2))"
    by (simp add: example_state_after_1_def example_state_after_2_def pipeline)
  have h5: "lanes_sorted example_state_after_2"
    by (rule after_run[OF run2])
  have "0 \<le> t_interval_m example_state_after_1"
    by (simp add: example_state_after_1_def example_state_def)
  from run_nonnegative_interval[OF this, of example_collaborators 4 "1 / 40"]
  obtain t s4 where "run example_collaborators example_state_after_1 4 (1 / 40) = Some (t, s4)"
    by blast
  then have run4: "simulation_run example_collaborators example_state_after_1 4 (1 / 40) =
      Some (Inr (t, s4))"
    by (simp add: simulation_run_def)
  have h6: "lanes_sorted s4"
    by (rule after_run[OF run4])
  show ?thesis
  proof (intro conjI)
    show "\<forall>a b g. time_sorted (fst (generator_events example_collaborators a b g)) \<and>
        list_all (\<lambda>e. time e < b) (fst (generator_events example_collaborators a b g))"
      using h1 by (simp add: list_all_iff)
    show "\<exists>t s'. simulation_run example_collaborators example_state_after_1 4 (1 / 40) =
        Some (Inr (t, s')) \<and> lanes_sorted s'"
      using run4 h6 by (intro exI[of _ t] exI[of _ s4] conjI)
  qed (fact h2 injected pending unsorted h3 lane cleared run1 h4 run2 h5)+
qed

text \<open>
  C6 as stated fails for the pending buffers: two events for gid 10, in lists that are each
  sorted, are injected without error, and the pending buffer of cell 0 then holds the event
  at time 7 before the event at time 6.
\<close>

theorem inject_events_pending_unsorted_counterexample:
  "inject_events example_state_at_5
     [(10, [\<lparr>target = 0, weight = 1, time = 7\<rparr>]), (10, [\<lparr>target = 0, weight = 1, time = 6\<rparr>])] =
     Inr (example_state_at_5\<lparr>pending_events_m :=
            [[\<lparr>target = 0, weight = 1, time = 7\<rparr>, \<lparr>target = 0, weight = 1, time = 6\<rparr>], []]\<rparr>) \<and>
   \<not> pending_sorted (example_state_at_5\<lparr>pending_events_m :=
            [[\<lparr>target = 0, weight = 1, time = 7\<rparr>, \<lparr>target = 0, weight = 1, time = 6\<rparr>], []]\<rparr>)"
  by (simp add: example_state_at_5_def example_state_def push_pending_def pending_sorted_def
      time_sorted_def)

end
